theory Spec2Isabelle
  imports Main "HOL-Library.Word"
begin

unbundle bit_operations_syntax

section \<open>exoTM: ownership records and the per-thread engine context\<close>

text \<open>
  Embedding of \<^verbatim>\<open>policies/exoTM/exotm.h\<close>.  An orec is addressed by a pointer (a
  natural number); the shared part of the machine is the orec store together with the
  hardware cycle counter.  The counter is an oracle \<open>tsc\<close> giving the value of the n-th
  \<^verbatim>\<open>rdtsc\<close>, and \<open>tsc_reads\<close> counts the reads performed so far, so that
  "no clock was read" is a property of the state.
\<close>

type_synonym u64 = "64 word"
type_synonym orec_ptr = nat

definition LOCK_BIT :: u64 where
  "LOCK_BIT = push_bit 63 1"

definition END_OF_TIME :: u64 where
  "END_OF_TIME = - 1"

datatype UNWIND_TYPES = ROLLBACK_ORECS | BUMP_ORECS

record orec_t =
  curr :: u64
  prev :: u64

record machine =
  orecs :: "orec_ptr \<Rightarrow> orec_t"
  tsc :: "nat \<Rightarrow> u64"
  tsc_reads :: nat

record exotm_t =
  start_time :: u64
  locks :: "orec_ptr list"
  my_lock :: u64
  last_wo_end_time :: u64
  unwound :: bool

text \<open>The constructor: idle, no locks, lock word = \<open>LOCK_BIT | this\<close>.\<close>

definition exotm_init :: "u64 \<Rightarrow> exotm_t" where
  "exotm_init this =
     \<lparr>start_time = END_OF_TIME, locks = [], my_lock = LOCK_BIT OR this,
      last_wo_end_time = 0, unwound = False\<rparr>"

definition get_time_relaxed :: "machine \<Rightarrow> u64 \<times> machine" where
  "get_time_relaxed m = (tsc m (tsc_reads m), m\<lparr>tsc_reads := Suc (tsc_reads m)\<rparr>)"

text \<open>\<^verbatim>\<open>o->curr.store(v)\<close> and \<^verbatim>\<open>o->prev = v\<close>.\<close>

definition store_curr :: "orec_ptr \<Rightarrow> u64 \<Rightarrow> machine \<Rightarrow> machine" where
  "store_curr p v m = m\<lparr>orecs := (orecs m)(p := (orecs m p)\<lparr>curr := v\<rparr>)\<rparr>"

definition store_prev :: "orec_ptr \<Rightarrow> u64 \<Rightarrow> machine \<Rightarrow> machine" where
  "store_prev p v m = m\<lparr>orecs := (orecs m)(p := (orecs m p)\<lparr>prev := v\<rparr>)\<rparr>"

text \<open>
  \<^verbatim>\<open>o->curr.compare_exchange_strong(expected, desired)\<close>: succeeds, and stores, exactly
  when the orec still holds the expected value.
\<close>

definition compare_exchange_strong :: "orec_ptr \<Rightarrow> u64 \<Rightarrow> u64 \<Rightarrow> machine \<Rightarrow> bool \<times> machine" where
  "compare_exchange_strong p expected desired m =
     (if curr (orecs m p) = expected then (True, store_curr p desired m) else (False, m))"

definition ro_begin :: "exotm_t \<Rightarrow> machine \<Rightarrow> exotm_t \<times> machine" where
  "ro_begin ctx m = (let (time, m1) = get_time_relaxed m in (ctx\<lparr>start_time := time\<rparr>, m1))"

definition ro_end :: "exotm_t \<Rightarrow> exotm_t" where
  "ro_end ctx = ctx\<lparr>start_time := END_OF_TIME\<rparr>"

definition check_orec :: "exotm_t \<Rightarrow> orec_ptr \<Rightarrow> machine \<Rightarrow> u64" where
  "check_orec ctx p m =
     (let res = curr (orecs m p)
      in if res \<le> start_time ctx \<or> res = my_lock ctx then res else END_OF_TIME)"

definition check_continuation :: "orec_ptr \<Rightarrow> u64 \<Rightarrow> machine \<Rightarrow> bool" where
  "check_continuation p val m = (curr (orecs m p) \<le> val)"

definition wo_begin :: "exotm_t \<Rightarrow> machine \<Rightarrow> exotm_t \<times> machine" where
  "wo_begin ctx m =
     (let (time, m1) = get_time_relaxed m
      in (ctx\<lparr>start_time := time, unwound := False\<rparr>, m1))"

text \<open>
  The acquire operations load the orec and later CAS it.  Other threads may run between
  the two atomic accesses: \<open>env\<close> is what they do to the machine in that window
  (\<open>id\<close> when the caller runs alone).
\<close>

definition acquire_consistent ::
  "exotm_t \<Rightarrow> (machine \<Rightarrow> machine) \<Rightarrow> orec_ptr \<Rightarrow> machine \<Rightarrow> bool \<times> exotm_t \<times> machine" where
  "acquire_consistent ctx env p m =
     (let val = curr (orecs m p)
      in if val = my_lock ctx then (True, ctx, m)
         else if val > start_time ctx then (False, ctx, m)
         else (case compare_exchange_strong p val (my_lock ctx) (env m) of
                 (False, m1) \<Rightarrow> (False, ctx, m1)
               | (True, m1) \<Rightarrow> (True, ctx\<lparr>locks := locks ctx @ [p]\<rparr>, store_prev p val m1)))"

definition acquire_continuation ::
  "exotm_t \<Rightarrow> (machine \<Rightarrow> machine) \<Rightarrow> orec_ptr \<Rightarrow> u64 \<Rightarrow> machine \<Rightarrow> bool \<times> exotm_t \<times> machine" where
  "acquire_continuation ctx env p val m =
     (let orec_val = curr (orecs m p)
      in if orec_val > val then (orec_val = my_lock ctx, ctx, m)
         else (case compare_exchange_strong p orec_val (my_lock ctx) (env m) of
                 (False, m1) \<Rightarrow> (False, ctx, m1)
               | (True, m1) \<Rightarrow> (True, ctx\<lparr>locks := locks ctx @ [p]\<rparr>, store_prev p orec_val m1)))"

definition acquire_aggressive ::
  "exotm_t \<Rightarrow> (machine \<Rightarrow> machine) \<Rightarrow> orec_ptr \<Rightarrow> machine \<Rightarrow> bool \<times> exotm_t \<times> machine" where
  "acquire_aggressive ctx env p m =
     (let val = curr (orecs m p)
      in if val AND LOCK_BIT \<noteq> 0 then (val = my_lock ctx, ctx, m)
         else (case compare_exchange_strong p val (my_lock ctx) (env m) of
                 (True, m1) \<Rightarrow> (True, ctx\<lparr>locks := locks ctx @ [p]\<rparr>, store_prev p val m1)
               | (False, m1) \<Rightarrow> (False, ctx, m1)))"

definition has_orecs :: "exotm_t \<Rightarrow> bool" where
  "has_orecs ctx = (locks ctx \<noteq> [])"

text \<open>The release loops of \<^verbatim>\<open>wo_end\<close> and \<^verbatim>\<open>unwind\<close>, one store per entry of \<open>locks\<close>.\<close>

fun release_to :: "u64 \<Rightarrow> orec_ptr list \<Rightarrow> machine \<Rightarrow> machine" where
  "release_to t [] m = m"
| "release_to t (p # ps) m = release_to t ps (store_curr p t m)"

fun rollback_orecs :: "orec_ptr list \<Rightarrow> machine \<Rightarrow> machine" where
  "rollback_orecs [] m = m"
| "rollback_orecs (p # ps) m = rollback_orecs ps (store_curr p (prev (orecs m p)) m)"

fun bump_orecs :: "orec_ptr list \<Rightarrow> machine \<Rightarrow> machine" where
  "bump_orecs [] m = m"
| "bump_orecs (p # ps) m = bump_orecs ps (store_curr p (prev (orecs m p) + 1) m)"

definition wo_end :: "exotm_t \<Rightarrow> machine \<Rightarrow> exotm_t \<times> machine" where
  "wo_end ctx m =
     (if unwound ctx then (ctx\<lparr>unwound := False\<rparr>, m)
      else (let ctx1 = ctx\<lparr>start_time := END_OF_TIME\<rparr>;
                (t, m1) = get_time_relaxed m;
                ctx2 = ctx1\<lparr>last_wo_end_time := t\<rparr>;
                m2 = release_to t (locks ctx2) m1
            in (ctx2\<lparr>locks := []\<rparr>, m2)))"

definition unwind :: "exotm_t \<Rightarrow> UNWIND_TYPES \<Rightarrow> machine \<Rightarrow> exotm_t \<times> machine" where
  "unwind ctx how m =
     (let ctx1 = ctx\<lparr>unwound := True, start_time := END_OF_TIME\<rparr>;
          m1 = (if how = ROLLBACK_ORECS then rollback_orecs (locks ctx1) m
                else bump_orecs (locks ctx1) m)
      in (ctx1\<lparr>locks := []\<rparr>, m1))"

section \<open>The redo log\<close>

text \<open>
  Embedding of \<^verbatim>\<open>policies/include/redolog_nocast.h\<close> and \<^verbatim>\<open>hash.h\<close>.  The template
  parameter \<^verbatim>\<open>CHUNKSIZE\<close> is the argument \<open>C\<close>.  Addresses, the valid-bytes mask and
  the version counter are 64-bit words; lengths, counts and indices are natural numbers,
  with the wrap-around of \<^verbatim>\<open>size_t\<close> written out where the program multiplies or
  increments one (a probing index \<open>h\<close> is below the length of an array of 24-byte
  entries, so \<open>h + 1\<close> cannot wrap).  A scalar of type \<^verbatim>\<open>T\<close> is its object
  representation, a list of \<^verbatim>\<open>sizeof(T)\<close> bytes.

  Failed assertions, accesses outside an array and the like are faults; a linear-probing
  loop that never ends is the result \<open>None\<close>.
\<close>

type_synonym u8 = "8 word"
type_synonym u32 = "32 word"

datatype fault = AssertionFailed | OutOfBounds | BadArrayLength | UndefinedShift | DivisionByZero

record index_t =
  vVer :: u64
  cAddr :: u64
  vIdx :: nat

record writeback_chunk_t =
  bAddr :: u64
  vBytes :: u64
  data :: "u8 list"

record redolog =
  ht_tbl :: "index_t list"
  ht_len :: nat
  ht_ver :: u64
  ht_shift :: nat
  vec_chunks :: "writeback_chunk_t list"
  vec_cap :: nat
  vec_count :: nat

definition SPILL_FACTOR :: nat where
  "SPILL_FACTOR = 3"

definition MASK :: "nat \<Rightarrow> u64" where
  "MASK C = of_nat C - 1"

definition mix13_hash :: "u64 \<Rightarrow> u64" where
  "mix13_hash x =
     (let x1 = (x XOR drop_bit 30 x) * 0xbf58476d1ce4e5b9;
          x2 = (x1 XOR drop_bit 27 x1) * 0x94d049bb133111eb
      in x2 XOR drop_bit 31 x2)"

definition hash :: "redolog \<Rightarrow> u64 \<Rightarrow> nat" where
  "hash s key = unat (drop_bit (ht_shift s) (mix13_hash key AND 0xFFFFFFFF))"

text \<open>\<^verbatim>\<open>index_t()\<close>: version 0 is never the version of the log.\<close>

definition index_t_init :: index_t where
  "index_t_init = \<lparr>vVer = 0, cAddr = 0, vIdx = 0\<rparr>"

text \<open>
  \<^verbatim>\<open>1 << k\<close> is computed in \<^verbatim>\<open>int\<close> and converted to \<^verbatim>\<open>size_t\<close>: for \<open>k = 31\<close> the
  result is \<^verbatim>\<open>INT_MIN\<close>, sign-extended; a larger shift count is undefined.
\<close>

definition shl_int_1 :: "nat \<Rightarrow> fault + nat" where
  "shl_int_1 k = (if k < 31 then Inr (2 ^ k)
                  else if k = 31 then Inr (2 ^ 64 - 2 ^ 31)
                  else Inl UndefinedShift)"

definition doubleIndexLength :: "redolog \<Rightarrow> fault + redolog" where
  "doubleIndexLength s =
     (if ht_shift s = 0 then Inl AssertionFailed
      else let sh = ht_shift s - 1
           in if sh > 32 then Inl UndefinedShift
              else (case shl_int_1 (32 - sh) of
                      Inl e \<Rightarrow> Inl e
                    | Inr n \<Rightarrow> Inr (s\<lparr>ht_shift := sh, ht_len := n\<rparr>)))"

text \<open>
  \<^verbatim>\<open>new index_t[n]\<close>: \<^verbatim>\<open>sizeof(index_t)\<close> is 24; an array whose size in bytes exceeds
  \<^verbatim>\<open>PTRDIFF_MAX\<close> is refused (\<^verbatim>\<open>std::bad_array_new_length\<close>).
\<close>

definition new_index_tbl :: "nat \<Rightarrow> fault + index_t list" where
  "new_index_tbl n = (if n * 24 \<ge> 2 ^ 63 then Inl BadArrayLength
                      else Inr (replicate n index_t_init))"

text \<open>The probing loop of \<^verbatim>\<open>rebuild\<close>: the next slot, from \<open>h\<close> on, that is not of this version.\<close>

partial_function (option) next_unused :: "redolog \<Rightarrow> nat \<Rightarrow> (fault + nat) option" where
  "next_unused s h =
     (if h \<ge> length (ht_tbl s) then Some (Inl OutOfBounds)
      else if vVer (ht_tbl s ! h) = ht_ver s then
        (if ht_len s = 0 then Some (Inl DivisionByZero)
         else next_unused s ((h + 1) mod ht_len s))
      else Some (Inr h))"

declare next_unused.simps [code]

function rebuild_loop :: "redolog \<Rightarrow> nat \<Rightarrow> (fault + redolog) option" where
  "rebuild_loop s i =
     (if i < vec_count s then
        (if i \<ge> length (vec_chunks s) then Some (Inl OutOfBounds)
         else (case next_unused s (hash s (bAddr (vec_chunks s ! i))) of
                 None \<Rightarrow> None
               | Some (Inl e) \<Rightarrow> Some (Inl e)
               | Some (Inr h) \<Rightarrow>
                   rebuild_loop
                     (s\<lparr>ht_tbl := (ht_tbl s)
                          [h := \<lparr>vVer = ht_ver s, cAddr = bAddr (vec_chunks s ! i), vIdx = i\<rparr>]\<rparr>)
                     (Suc i)))
      else Some (Inr s))"
  by pat_completeness auto
termination
  by (relation "measure (\<lambda>(s, i). vec_count s - i)") auto

declare rebuild_loop.simps [simp del]

definition rebuild :: "redolog \<Rightarrow> (fault + redolog) option" where
  "rebuild s =
     (if ht_ver s = 0 then Some (Inl AssertionFailed)
      else (case doubleIndexLength s of
              Inl e \<Rightarrow> Some (Inl e)
            | Inr s1 \<Rightarrow>
                (case new_index_tbl (ht_len s1) of
                   Inl e \<Rightarrow> Some (Inl e)
                 | Inr t \<Rightarrow> rebuild_loop (s1\<lparr>ht_tbl := t\<rparr>) 0)))"

text \<open>
  The block of the vector comes from \<^verbatim>\<open>malloc(vec.cap * sizeof(writeback_chunk_t))\<close>.
  The product is a \<^verbatim>\<open>size_t\<close> and wraps; the block holds as many whole chunks as fit in
  the bytes requested, and a request above \<^verbatim>\<open>PTRDIFF_MAX\<close> yields no block, hence no
  chunk that can be accessed.  \<^verbatim>\<open>malloc\<close> does not initialise the block: what slot \<open>i\<close>
  of the block requested for \<open>n\<close> chunks holds is \<open>junk n i\<close>, a parameter of the model
  (base address, mask and payload bytes, all arbitrary).
\<close>

record raw_chunk_t =
  rAddr :: u64
  rBytes :: u64
  rData :: "nat \<Rightarrow> u8"

type_synonym junk = "nat \<Rightarrow> nat \<Rightarrow> raw_chunk_t"

definition sizeof_chunk :: "nat \<Rightarrow> nat" where
  "sizeof_chunk C = 16 + 8 * ((C + 7) div 8)"

definition uninit :: "nat \<Rightarrow> raw_chunk_t \<Rightarrow> writeback_chunk_t" where
  "uninit C r = \<lparr>bAddr = rAddr r, vBytes = rBytes r, data = map (rData r) [0..<C]\<rparr>"

definition malloc_chunks :: "nat \<Rightarrow> junk \<Rightarrow> nat \<Rightarrow> writeback_chunk_t list" where
  "malloc_chunks C junk n =
     (let bytes = (n * sizeof_chunk C) mod 2 ^ 64
      in if bytes \<ge> 2 ^ 63 then []
         else map (\<lambda>i. uninit C (junk n i)) [0..<bytes div sizeof_chunk C])"

text \<open>
  \<^verbatim>\<open>resize\<close> copies the \<open>count\<close> chunks in use into a block of twice the capacity; the
  rest of the new block is as \<^verbatim>\<open>malloc\<close> left it.
\<close>

definition resize :: "nat \<Rightarrow> junk \<Rightarrow> redolog \<Rightarrow> fault + redolog" where
  "resize C junk s =
     (let cap = (vec_cap s * 2) mod 2 ^ 64;
          blk = malloc_chunks C junk cap
      in if vec_count s > length blk \<or> vec_count s > length (vec_chunks s) then Inl OutOfBounds
         else Inr (s\<lparr>vec_cap := cap,
                      vec_chunks := take (vec_count s) (vec_chunks s)
                                      @ drop (vec_count s) blk\<rparr>))"

definition reset_internal :: "redolog \<Rightarrow> redolog" where
  "reset_internal s =
     s\<lparr>ht_tbl := replicate (ht_len s) index_t_init @ drop (ht_len s) (ht_tbl s), ht_ver := 1\<rparr>"

text \<open>
  The constructor.  \<^verbatim>\<open>SPILL_FACTOR * initial_capacity\<close> is a \<^verbatim>\<open>size_t\<close> product.
\<close>

function init_loop :: "nat \<Rightarrow> redolog \<Rightarrow> fault + redolog" where
  "init_loop initial_capacity s =
     (if ht_len s < (SPILL_FACTOR * initial_capacity) mod 2 ^ 64 then
        (case doubleIndexLength s of
           Inl e \<Rightarrow> Inl e
         | Inr s1 \<Rightarrow> init_loop initial_capacity s1)
      else Inr s)"
  by pat_completeness auto
termination
  by (relation "measure (\<lambda>(c, s). ht_shift s)")
     (auto simp: doubleIndexLength_def Let_def split: if_splits sum.splits)

declare init_loop.simps [simp del]

definition redolog_init :: "nat \<Rightarrow> junk \<Rightarrow> nat \<Rightarrow> fault + redolog" where
  "redolog_init C junk initial_capacity =
     (case init_loop initial_capacity
             \<lparr>ht_tbl = [], ht_len = 0, ht_ver = 1, ht_shift = 32,
              vec_chunks = [], vec_cap = initial_capacity, vec_count = 0\<rparr> of
        Inl e \<Rightarrow> Inl e
      | Inr s \<Rightarrow>
          (case new_index_tbl (ht_len s) of
             Inl e \<Rightarrow> Inl e
           | Inr t \<Rightarrow> Inr (s\<lparr>ht_tbl := t, vec_chunks := malloc_chunks C junk (vec_cap s)\<rparr>)))"

text \<open>
  The probing loop shared, word for word, by \<^verbatim>\<open>lookup\<close> and \<^verbatim>\<open>reserve\<close>: it ends at the
  entry of \<open>key\<close> or at the first slot that is not of this version.
\<close>

datatype probe_result = Found nat | Unused nat

partial_function (option) probe :: "redolog \<Rightarrow> u64 \<Rightarrow> nat \<Rightarrow> (fault + probe_result) option" where
  "probe s key h =
     (if h \<ge> length (ht_tbl s) then Some (Inl OutOfBounds)
      else if vVer (ht_tbl s ! h) = ht_ver s then
        (if cAddr (ht_tbl s ! h) = key then Some (Inr (Found (vIdx (ht_tbl s ! h))))
         else if ht_len s = 0 then Some (Inl DivisionByZero)
         else probe s key ((h + 1) mod ht_len s))
      else Some (Inr (Unused h)))"

declare probe.simps [code]

text \<open>The conversion of a \<^verbatim>\<open>size_t\<close> to \<^verbatim>\<open>int\<close>.\<close>

definition int_of_size_t :: "nat \<Rightarrow> int" where
  "int_of_size_t n = sint (of_nat n :: u32)"

definition lookup :: "redolog \<Rightarrow> u64 \<Rightarrow> (fault + int) option" where
  "lookup s key =
     (case probe s key (hash s key) of
        None \<Rightarrow> None
      | Some (Inl e) \<Rightarrow> Some (Inl e)
      | Some (Inr (Found i)) \<Rightarrow> Some (Inr (int_of_size_t i))
      | Some (Inr (Unused h)) \<Rightarrow> Some (Inr (- 1)))"

definition isEmpty :: "redolog \<Rightarrow> bool" where
  "isEmpty s = (vec_count s = 0)"

definition reserve ::
  "nat \<Rightarrow> junk \<Rightarrow> redolog \<Rightarrow> u64 \<Rightarrow> (fault + nat \<times> redolog) option" where
  "reserve C junk s key =
     (case probe s key (hash s key) of
        None \<Rightarrow> None
      | Some (Inl e) \<Rightarrow> Some (Inl e)
      | Some (Inr (Found i)) \<Rightarrow> Some (Inr (i, s))
      | Some (Inr (Unused h)) \<Rightarrow>
          (let res = vec_count s;
               s1 = s\<lparr>ht_tbl := (ht_tbl s)[h := \<lparr>vVer = ht_ver s, cAddr = key, vIdx = res\<rparr>]\<rparr>
           in if vec_count s1 \<ge> length (vec_chunks s1) then Some (Inl OutOfBounds)
              else
                (let s2 = s1\<lparr>vec_chunks := (vec_chunks s1)
                             [vec_count s1 := (vec_chunks s1 ! vec_count s1)\<lparr>bAddr := key, vBytes := 0\<rparr>],
                            vec_count := (vec_count s1 + 1) mod 2 ^ 64\<rparr>
                 in case (if vec_count s2 = vec_cap s2 then resize C junk s2 else Inr s2) of
                      Inl e \<Rightarrow> Some (Inl e)
                    | Inr s3 \<Rightarrow>
                        if (vec_count s3 * SPILL_FACTOR) mod 2 ^ 64 \<ge> ht_len s3 then
                          (case rebuild s3 of
                             None \<Rightarrow> None
                           | Some (Inl e) \<Rightarrow> Some (Inl e)
                           | Some (Inr s4) \<Rightarrow> Some (Inr (res, s4)))
                        else Some (Inr (res, s3)))))"

definition clear :: "redolog \<Rightarrow> redolog" where
  "clear s =
     (let s1 = s\<lparr>vec_count := 0, ht_ver := ht_ver s + 1\<rparr>
      in if ht_ver s1 \<noteq> 0 then s1 else reset_internal s1)"

text \<open>
  \<^verbatim>\<open>writeback\<close>.  A store is the address and the bytes written by one
  \<^verbatim>\<open>atomic_ref<..>::store\<close>.  The loop over one chunk yields the stores it performs, in
  order; \<open>m\<close> is the \<^verbatim>\<open>int\<close> holding the shifted mask.
\<close>

datatype store = Store (st_addr: u64) (st_bytes: "u8 list")

function wb_chunk :: "nat \<Rightarrow> writeback_chunk_t \<Rightarrow> nat \<Rightarrow> store list" where
  "wb_chunk C c bytes =
     (if bytes < C then
        (let m = (ucast (drop_bit bytes (vBytes c)) :: u32)
         in if m AND 0xFF = 0xFF \<and> bytes mod 8 = 0 then
              Store (bAddr c + of_nat bytes) (take 8 (drop bytes (data c)))
                # wb_chunk C c (bytes + 8)
            else if m AND 0xFF = 0 then wb_chunk C c (bytes + 8)
            else if m AND 0xF = 0xF \<and> bytes mod 4 = 0 then
              Store (bAddr c + of_nat bytes) (take 4 (drop bytes (data c)))
                # wb_chunk C c (bytes + 4)
            else if m AND 0xF = 0 then wb_chunk C c (bytes + 4)
            else if m AND 0x3 = 0x3 \<and> bytes mod 2 = 0 then
              Store (bAddr c + of_nat bytes) (take 2 (drop bytes (data c)))
                # wb_chunk C c (bytes + 2)
            else if m AND 0x3 = 0 then wb_chunk C c (bytes + 2)
            else if m AND 0x1 = 0x1 then
              Store (bAddr c + of_nat bytes) (take 1 (drop bytes (data c)))
                # wb_chunk C c (bytes + 1)
            else wb_chunk C c (bytes + 1))
      else [])"
  by pat_completeness auto
termination
  by (relation "measure (\<lambda>(C, c, bytes). C - bytes)") auto

declare wb_chunk.simps [simp del]

type_synonym memory = "u64 \<Rightarrow> u8"

fun write_bytes :: "memory \<Rightarrow> u64 \<Rightarrow> u8 list \<Rightarrow> memory" where
  "write_bytes mem a [] = mem"
| "write_bytes mem a (b # bs) = write_bytes (mem(a := b)) (a + 1) bs"

definition do_store :: "store \<Rightarrow> memory \<Rightarrow> memory" where
  "do_store st mem = write_bytes mem (st_addr st) (st_bytes st)"

definition writeback_stores :: "nat \<Rightarrow> redolog \<Rightarrow> store list" where
  "writeback_stores C s = concat (map (\<lambda>i. wb_chunk C (vec_chunks s ! i) 0) [0..<vec_count s])"

definition writeback :: "nat \<Rightarrow> redolog \<Rightarrow> memory \<Rightarrow> memory" where
  "writeback C s mem = fold do_store (writeback_stores C s) mem"

text \<open>\<^verbatim>\<open>insert\<close> and \<^verbatim>\<open>get\<close>; \<open>put_bytes\<close> is the type-preserving write into the payload.\<close>

definition put_bytes :: "u8 list \<Rightarrow> nat \<Rightarrow> u8 list \<Rightarrow> u8 list" where
  "put_bytes d offset val = take offset d @ val @ drop (offset + length val) d"

definition insert_log ::
  "nat \<Rightarrow> junk \<Rightarrow> redolog \<Rightarrow> u64 \<Rightarrow> u8 list \<Rightarrow> (fault + redolog) option" where
  "insert_log C junk s addr val =
     (let chunk_addr = addr AND NOT (MASK C)
      in case reserve C junk s chunk_addr of
           None \<Rightarrow> None
         | Some (Inl e) \<Rightarrow> Some (Inl e)
         | Some (Inr (res, s1)) \<Rightarrow>
             (let vec_idx = int_of_size_t res;
                  offset = unat (addr AND MASK C)
              in if vec_idx < 0 \<or> nat vec_idx \<ge> length (vec_chunks s1) then Some (Inl OutOfBounds)
                 else if offset + length val > C then Some (Inl OutOfBounds)
                 else
                   (let c = vec_chunks s1 ! nat vec_idx;
                        mask = (push_bit (length val) 1 - 1 :: u64);
                        c1 = c\<lparr>data := put_bytes (data c) offset val\<rparr>;
                        c2 = c1\<lparr>vBytes := vBytes c1 OR push_bit offset mask\<rparr>
                    in Some (Inr (s1\<lparr>vec_chunks := (vec_chunks s1)[nat vec_idx := c2]\<rparr>)))))"

text \<open>
  \<^verbatim>\<open>get\<close> for a scalar of \<open>w\<close> bytes: \<open>Some bytes\<close> is the result \<^verbatim>\<open>true\<close> with the
  out-parameter set, \<open>None\<close> the result \<^verbatim>\<open>false\<close>.
\<close>

definition get_log :: "nat \<Rightarrow> redolog \<Rightarrow> u64 \<Rightarrow> nat \<Rightarrow> (fault + u8 list option) option" where
  "get_log C s addr w =
     (if vec_count s = 0 then Some (Inr None)
      else
        (let key = addr AND NOT (MASK C)
         in case lookup s key of
              None \<Rightarrow> None
            | Some (Inl e) \<Rightarrow> Some (Inl e)
            | Some (Inr idx) \<Rightarrow>
                if idx = - 1 then Some (Inr None)
                else if idx < 0 \<or> nat idx \<ge> length (vec_chunks s) then Some (Inl OutOfBounds)
                else
                  (let offset = unat (addr AND MASK C);
                       nodemask = drop_bit offset (vBytes (vec_chunks s ! nat idx));
                       mask = (push_bit w 1 - 1 :: u64);
                       livebits = (ucast (mask AND nodemask) :: u32)
                   in if livebits = 0 then Some (Inr None)
                      else if offset + w > C then Some (Inl OutOfBounds)
                      else Some (Inr (Some (take w (drop offset (data (vec_chunks s ! nat idx)))))))))"

definition size_log :: "redolog \<Rightarrow> nat" where
  "size_log s = vec_count s"

text \<open>A concrete machine and context used to exercise the engine.\<close>

definition ex_machine :: machine where
  "ex_machine =
     \<lparr>orecs = (\<lambda>_. \<lparr>curr = 0, prev = 0\<rparr>)
        (1 := \<lparr>curr = LOCK_BIT OR 8, prev = 5\<rparr>, 2 := \<lparr>curr = LOCK_BIT OR 8, prev = 9\<rparr>,
         3 := \<lparr>curr = 100, prev = 0\<rparr>, 4 := \<lparr>curr = LOCK_BIT OR 16, prev = 7\<rparr>),
      tsc = (\<lambda>n. 1000 + of_nat n), tsc_reads = 0\<rparr>"

definition ex_ctx :: exotm_t where
  "ex_ctx = (exotm_init 8)\<lparr>start_time := 50, locks := [1, 2]\<rparr>"

text \<open>
  Two logs, for any content \<open>j\<close> of the blocks \<^verbatim>\<open>malloc\<close> returns: a fresh one of
  capacity 1, and the same after one 1-byte insert.  \<open>ex_junk\<close> is a heap filled with
  the byte \<open>0xA5\<close>.
\<close>

definition ex_junk :: junk where
  "ex_junk = (\<lambda>n i. \<lparr>rAddr = 0xA5A5A5A5A5A5A5A5, rBytes = 0xA5A5A5A5A5A5A5A5,
                        rData = (\<lambda>k. 0xA5)\<rparr>)"

definition ex_log0 :: "junk \<Rightarrow> redolog" where
  "ex_log0 j = \<lparr>ht_tbl = replicate 4 index_t_init, ht_len = 4, ht_ver = 1, ht_shift = 30,
                vec_chunks = [uninit 32 (j 1 0)], vec_cap = 1, vec_count = 0\<rparr>"

definition ex_log1 :: "junk \<Rightarrow> redolog" where
  "ex_log1 j = \<lparr>ht_tbl = [index_t_init, \<lparr>vVer = 1, cAddr = 0x1000, vIdx = 0\<rparr>,
                          index_t_init, index_t_init],
                ht_len = 4, ht_ver = 1, ht_shift = 30,
                vec_chunks = [\<lparr>bAddr = 0x1000, vBytes = 1,
                                data = 7 # map (rData (j 1 0)) [1..<32]\<rparr>,
                              uninit 32 (j 2 1)],
                vec_cap = 2, vec_count = 1\<rparr>"

text \<open>
  Notions used to state the effect of \<^verbatim>\<open>writeback\<close>.  \<open>chunksize_ok\<close> are the chunk
  sizes the class documents (a power of two, at most 64, at least the largest scalar);
  \<open>chunks_wf\<close> is what the log maintains for the chunks in use: payloads of \<open>C\<close>
  bytes, and base addresses that are aligned to \<open>C\<close> and pairwise different.
  \<open>allv v b n\<close>: the \<open>n\<close> bytes from offset \<open>b\<close> are all marked valid in the
  mask \<open>v\<close>; \<open>nonev\<close>: none is.  \<open>chunk_store c off n\<close> is the store of the \<open>n\<close>
  payload bytes at offset \<open>off\<close> to their place in memory, and \<open>largest_at v off n\<close>
  says that \<open>n\<close> is the largest of 8, 4, 2, 1 for which the block at \<open>off\<close> is
  aligned and fully valid.  \<open>covers\<close>: the store writes the address; \<open>target\<close>: the
  byte a valid position of some chunk in use prescribes for an address.
\<close>

definition allv :: "u64 \<Rightarrow> nat \<Rightarrow> nat \<Rightarrow> bool" where
  "allv v b n = (\<forall>i<n. bit v (b + i))"

definition nonev :: "u64 \<Rightarrow> nat \<Rightarrow> nat \<Rightarrow> bool" where
  "nonev v b n = (\<forall>i<n. \<not> bit v (b + i))"

definition chunksize_ok :: "nat \<Rightarrow> bool" where
  "chunksize_ok C = (C \<in> {8, 16, 32, 64})"

definition chunks_wf :: "nat \<Rightarrow> redolog \<Rightarrow> bool" where
  "chunks_wf C s =
     (vec_count s \<le> length (vec_chunks s)
      \<and> (\<forall>c \<in> set (take (vec_count s) (vec_chunks s)).
            length (data c) = C \<and> unat (bAddr c) mod C = 0)
      \<and> distinct (map bAddr (take (vec_count s) (vec_chunks s))))"

definition chunk_store :: "writeback_chunk_t \<Rightarrow> nat \<Rightarrow> nat \<Rightarrow> store" where
  "chunk_store c off n = Store (bAddr c + of_nat off) (take n (drop off (data c)))"

definition largest_at :: "u64 \<Rightarrow> nat \<Rightarrow> nat \<Rightarrow> bool" where
  "largest_at v b n =
     (n \<in> {1, 2, 4, 8} \<and> b mod n = 0 \<and> allv v b n
      \<and> (\<forall>n' \<in> {2, 4, 8}. n < n' \<longrightarrow> \<not> (b mod n' = 0 \<and> allv v b n')))"

definition covers :: "store \<Rightarrow> u64 \<Rightarrow> bool" where
  "covers st x = (\<exists>k<length (st_bytes st). x = st_addr st + of_nat k)"

definition target :: "nat \<Rightarrow> redolog \<Rightarrow> u64 \<Rightarrow> u8 \<Rightarrow> bool" where
  "target C s x y =
     (\<exists>i<vec_count s. \<exists>j<C. bit (vBytes (vec_chunks s ! i)) j
        \<and> x = bAddr (vec_chunks s ! i) + of_nat j \<and> y = data (vec_chunks s ! i) ! j)"

text \<open>The log \<open>ex_log1\<close> after a 4-byte insert at \<open>0x2004\<close>.\<close>

definition ex_log2 :: "junk \<Rightarrow> redolog" where
  "ex_log2 j =
     \<lparr>ht_tbl = [index_t_init, index_t_init, \<lparr>vVer = 1, cAddr = 0x1000, vIdx = 0\<rparr>, index_t_init,
                \<lparr>vVer = 1, cAddr = 0x2000, vIdx = 1\<rparr>, index_t_init, index_t_init, index_t_init],
      ht_len = 8, ht_ver = 1, ht_shift = 29,
      vec_chunks = [\<lparr>bAddr = 0x1000, vBytes = 1, data = 7 # map (rData (j 1 0)) [1..<32]\<rparr>,
                    \<lparr>bAddr = 0x2000, vBytes = 0xF0,
                       data = map (rData (j 2 1)) [0..<4] @ [1, 2, 3, 4]
                                @ map (rData (j 2 1)) [8..<32]\<rparr>,
                    uninit 32 (j 4 2), uninit 32 (j 4 3)],
      vec_cap = 4, vec_count = 2\<rparr>"

section \<open>Timestamp-based safe memory reclamation\<close>

text \<open>
  Embedding of \<^verbatim>\<open>policies/include/timestamp_smr.h\<close>.  A reclaimable object is its
  pointer.  \<^verbatim>\<open>delete ptr\<close> appends the pointer to the list of destroyed objects, which
  the operations pass along.  The value \<^verbatim>\<open>__rdtscp\<close> returns is the argument \<open>time\<close>.
  The chain \<^verbatim>\<open>globals.all_threads\<close> contains this context and those of the other
  threads; \<open>others\<close> are the timestamps \<^verbatim>\<open>sweep\<close> loads from the other contexts.
\<close>

type_synonym reclaimable_ptr = nat

record timestamp_smr_t =
  ts :: u64
  pending :: "reclaimable_ptr list"
  unreachable :: "(reclaimable_ptr \<times> u64) list"
  exits_remaining :: int

definition SWEEP_THRESHOLD :: int where
  "SWEEP_THRESHOLD = 1024"

definition ULLONG_MAX :: u64 where
  "ULLONG_MAX = - 1"

definition smr_init :: timestamp_smr_t where
  "smr_init = \<lparr>ts = ULLONG_MAX, pending = [], unreachable = [],
               exits_remaining = SWEEP_THRESHOLD\<rparr>"

definition smr_enter :: "timestamp_smr_t \<Rightarrow> u64 \<Rightarrow> timestamp_smr_t" where
  "smr_enter s time = s\<lparr>ts := time\<rparr>"

definition reclaim :: "reclaimable_ptr \<Rightarrow> timestamp_smr_t \<Rightarrow> timestamp_smr_t" where
  "reclaim p s = s\<lparr>pending := pending s @ [p]\<rparr>"

text \<open>The first loop of \<^verbatim>\<open>sweep\<close>: the smallest timestamp along the chain.\<close>

fun find_oldest :: "u64 \<Rightarrow> u64 list \<Rightarrow> u64" where
  "find_oldest oldest [] = oldest"
| "find_oldest oldest (t # rest) = find_oldest (if t < oldest then t else oldest) rest"

text \<open>The second loop: destroy from the front until a record is not old enough.\<close>

fun sweep_loop ::
  "u64 \<Rightarrow> (reclaimable_ptr \<times> u64) list \<Rightarrow> reclaimable_ptr list
     \<Rightarrow> (reclaimable_ptr \<times> u64) list \<times> reclaimable_ptr list" where
  "sweep_loop oldest [] destroyed = ([], destroyed)"
| "sweep_loop oldest ((p, t) # rest) destroyed =
     (if t \<ge> oldest then ((p, t) # rest, destroyed)
      else sweep_loop oldest rest (destroyed @ [p]))"

definition sweep ::
  "timestamp_smr_t \<Rightarrow> u64 list \<Rightarrow> reclaimable_ptr list \<Rightarrow> timestamp_smr_t \<times> reclaimable_ptr list" where
  "sweep s others destroyed =
     (let oldest = find_oldest ULLONG_MAX (ts s # others);
          (u, d) = sweep_loop oldest (unreachable s) destroyed
      in (s\<lparr>unreachable := u\<rparr>, d))"

definition smr_exit ::
  "timestamp_smr_t \<Rightarrow> u64 \<Rightarrow> u64 list \<Rightarrow> reclaimable_ptr list \<Rightarrow> timestamp_smr_t \<times> reclaimable_ptr list" where
  "smr_exit s time others destroyed =
     (let s1 = s\<lparr>ts := ULLONG_MAX\<rparr>
      in if pending s1 = [] then (s1, destroyed)
         else
           (let s2 = s1\<lparr>unreachable := unreachable s1 @ map (\<lambda>p. (p, time)) (pending s1)\<rparr>;
                s3 = s2\<lparr>pending := []\<rparr>;
                s4 = s3\<lparr>exits_remaining := exits_remaining s3 - 1\<rparr>
            in if exits_remaining s4 > 0 then (s4, destroyed)
               else sweep (s4\<lparr>exits_remaining := SWEEP_THRESHOLD\<rparr>) others destroyed))"

text \<open>A context about to sweep, and 1024 distinct retired objects.\<close>

definition ex_smr :: timestamp_smr_t where
  "ex_smr = \<lparr>ts = 12, pending = [3], unreachable = [(1, 10), (2, 20)], exits_remaining = 1\<rparr>"

definition ex_retired :: "reclaimable_ptr list" where
  "ex_retired = [0..<1024]"

section \<open>The hybrid policy: descriptor, commit, abort and inheritance\<close>

text \<open>
  Embedding of \<^verbatim>\<open>policies/hybrid/include/base.h\<close> (and of \<^verbatim>\<open>Stm::inheritOrec\<close> in
  \<^verbatim>\<open>raii.h\<close>, which only forwards to the descriptor).  The orec policy is the function
  \<open>orec_of\<close> from ownable objects to their orecs.  \<^verbatim>\<open>abort\<close> ends in \<^verbatim>\<open>longjmp\<close>:
  an operation that can abort yields \<open>Aborts\<close> together with the state \<^verbatim>\<open>abort\<close> left;
  \<open>freed\<close> collects the objects handed to \<^verbatim>\<open>free\<close>.  The redo log is instantiated
  with chunks of 32 bytes.
\<close>

type_synonym ownable_ptr = nat

datatype 'a outcome = Returns 'a | Aborts

record hybrid_base_t =
  exo :: exotm_t
  smr :: timestamp_smr_t
  readset :: "orec_ptr list"
  lockset :: "orec_ptr list"
  redo :: redolog
  mallocs :: "ownable_ptr list"
  frees :: "ownable_ptr list"
  freed :: "ownable_ptr list"

definition hybrid_abort :: "hybrid_base_t \<Rightarrow> machine \<Rightarrow> hybrid_base_t \<times> machine" where
  "hybrid_abort d m =
     (let (e, m1) = unwind (exo d) ROLLBACK_ORECS m
      in (d\<lparr>exo := e, frees := [], freed := freed d @ mallocs d, mallocs := [],
            readset := [], redo := clear (redo d), lockset := []\<rparr>, m1))"

text \<open>\<^verbatim>\<open>acquire_all\<close>: stops, to abort, at the first orec that cannot be acquired.\<close>

fun acquire_all_loop ::
  "exotm_t \<Rightarrow> (machine \<Rightarrow> machine) \<Rightarrow> orec_ptr list \<Rightarrow> machine \<Rightarrow> bool \<times> exotm_t \<times> machine" where
  "acquire_all_loop e env [] m = (True, e, m)"
| "acquire_all_loop e env (p # ps) m =
     (case acquire_consistent e env p m of
        (False, e1, m1) \<Rightarrow> (False, e1, m1)
      | (True, e1, m1) \<Rightarrow> acquire_all_loop e1 env ps m1)"

definition acquire_all ::
  "(machine \<Rightarrow> machine) \<Rightarrow> hybrid_base_t \<Rightarrow> machine \<Rightarrow> unit outcome \<times> hybrid_base_t \<times> machine" where
  "acquire_all env d m =
     (case acquire_all_loop (exo d) env (lockset d) m of
        (True, e, m1) \<Rightarrow> (Returns (), d\<lparr>exo := e\<rparr>, m1)
      | (False, e, m1) \<Rightarrow> (Aborts, hybrid_abort (d\<lparr>exo := e\<rparr>) m1))"

text \<open>\<^verbatim>\<open>validate()\<close>: aborts at the first orec of the read-set that fails \<^verbatim>\<open>check_orec\<close>.\<close>

fun validate_loop :: "exotm_t \<Rightarrow> orec_ptr list \<Rightarrow> machine \<Rightarrow> bool" where
  "validate_loop e [] m = True"
| "validate_loop e (p # ps) m =
     (if check_orec e p m = END_OF_TIME then False else validate_loop e ps m)"

definition validate :: "hybrid_base_t \<Rightarrow> machine \<Rightarrow> unit outcome \<times> hybrid_base_t \<times> machine" where
  "validate d m =
     (if validate_loop (exo d) (readset d) m then (Returns (), d, m)
      else (Aborts, hybrid_abort d m))"

definition inheritOrec ::
  "(ownable_ptr \<Rightarrow> orec_ptr) \<Rightarrow> hybrid_base_t \<Rightarrow> ownable_ptr \<Rightarrow> u64 \<Rightarrow> machine
     \<Rightarrow> bool \<times> hybrid_base_t" where
  "inheritOrec orec_of d obj val m =
     (let d1 = d\<lparr>readset := readset d @ [orec_of obj]\<rparr>
      in (check_continuation (orec_of obj) val m, d1))"

text \<open>
  \<^verbatim>\<open>commit\<close>, run by the destructor of the write guard.  Without locks to take or held
  it only ends the scope; otherwise it acquires, validates, writes back and releases.
\<close>

definition commit ::
  "(machine \<Rightarrow> machine) \<Rightarrow> hybrid_base_t \<Rightarrow> machine \<Rightarrow> memory
     \<Rightarrow> unit outcome \<times> hybrid_base_t \<times> machine \<times> memory" where
  "commit env d m mem =
     (if lockset d = [] \<and> \<not> has_orecs (exo d) then
        (Returns (), d\<lparr>exo := ro_end (exo d), readset := []\<rparr>, m, mem)
      else
        (case acquire_all env d m of
           (Aborts, d1, m1) \<Rightarrow> (Aborts, d1, m1, mem)
         | (Returns u, d1, m1) \<Rightarrow>
             (case validate d1 m1 of
                (Aborts, d2, m2) \<Rightarrow> (Aborts, d2, m2, mem)
              | (Returns u, d2, m2) \<Rightarrow>
                  (let mem1 = writeback 32 (redo d2) mem;
                       (e, m3) = wo_end (exo d2) m2;
                       d3 = d2\<lparr>exo := e, mallocs := []\<rparr>;
                       d4 = d3\<lparr>smr := fold reclaim (frees d3) (smr d3)\<rparr>;
                       d5 = d4\<lparr>frees := [], redo := clear (redo d4), lockset := [],
                                readset := []\<rparr>
                   in (Returns (), d5, m3, mem1)))))"

text \<open>A descriptor inside a fresh write scope (\<^verbatim>\<open>BEGIN_WO\<close>), objects being their own orecs.\<close>

definition ex_hybrid :: hybrid_base_t where
  "ex_hybrid =
     \<lparr>exo = (exotm_init 8)\<lparr>start_time := 50\<rparr>, smr = smr_init, readset = [], lockset = [],
      redo = (ex_log0 ex_junk), mallocs = [], frees = [], freed = []\<rparr>"

section \<open>Soundness of the redo log\<close>

text \<open>
  The invariant the class maintains, stated on the model.  \<open>slot_valid\<close>: an index entry
  is of the current version.  \<open>index_ok\<close>: every entry of the current version names a
  chunk in use and carries its base address, and all entries on the probing path from the
  hash of that address up to the entry are of the current version, so that probing for
  the address reaches the entry; two such entries name different chunks; and every chunk
  in use has an entry.  \<open>redolog_inv\<close> adds the sizes: the index has \<open>2 ^ (32 - shift)\<close>
  entries, none with a version above the current one, which is not 0; fewer than a third
  of them are in use (\<^verbatim>\<open>vec.count * SPILL_FACTOR < ht.len\<close>); the vector has room for one
  more chunk; payloads have \<open>C\<close> bytes, and the chunks in use have aligned, pairwise
  different bases (\<open>chunks_wf\<close>).
\<close>

definition slot_valid :: "index_t list \<Rightarrow> u64 \<Rightarrow> nat \<Rightarrow> bool" where
  "slot_valid tbl ver h = (vVer (tbl ! h) = ver)"

definition hashv :: "nat \<Rightarrow> u64 \<Rightarrow> nat" where
  "hashv shift key = unat (drop_bit shift (mix13_hash key AND 0xFFFFFFFF))"

definition index_ok ::
  "index_t list \<Rightarrow> u64 \<Rightarrow> nat \<Rightarrow> writeback_chunk_t list \<Rightarrow> nat \<Rightarrow> bool" where
  "index_ok tbl ver shift chunks n =
     ((\<forall>h<length tbl. slot_valid tbl ver h \<longrightarrow>
          vIdx (tbl ! h) < n
          \<and> cAddr (tbl ! h) = bAddr (chunks ! vIdx (tbl ! h))
          \<and> (\<forall>k < (h + length tbl - hashv shift (cAddr (tbl ! h))) mod length tbl.
                slot_valid tbl ver ((hashv shift (cAddr (tbl ! h)) + k) mod length tbl)))
      \<and> (\<forall>h<length tbl. \<forall>h'<length tbl.
            slot_valid tbl ver h \<and> slot_valid tbl ver h' \<and> vIdx (tbl ! h) = vIdx (tbl ! h')
            \<longrightarrow> h = h')
      \<and> (\<forall>i<n. \<exists>h<length tbl. slot_valid tbl ver h \<and> vIdx (tbl ! h) = i))"

definition redolog_inv :: "nat \<Rightarrow> redolog \<Rightarrow> bool" where
  "redolog_inv C s =
     (length (ht_tbl s) = ht_len s
      \<and> 2 \<le> ht_shift s \<and> ht_shift s \<le> 31 \<and> ht_len s = 2 ^ (32 - ht_shift s)
      \<and> ht_ver s \<noteq> 0
      \<and> (\<forall>e \<in> set (ht_tbl s). vVer e \<le> ht_ver s)
      \<and> vec_count s * SPILL_FACTOR < ht_len s
      \<and> vec_count s < vec_cap s \<and> length (vec_chunks s) = vec_cap s
      \<and> vec_cap s \<le> 2 ^ 31
      \<and> (\<forall>c \<in> set (vec_chunks s). length (data c) = C)
      \<and> chunks_wf C s
      \<and> index_ok (ht_tbl s) (ht_ver s) (ht_shift s) (vec_chunks s) (vec_count s))"

text \<open>
  The state \<^verbatim>\<open>reserve\<close> reaches, before a possible \<^verbatim>\<open>rebuild\<close>, when it adds a chunk
  for \<open>key\<close> at the unused index entry \<open>h\<close>; and the relation between shift and length
  that \<^verbatim>\<open>doubleIndexLength\<close> keeps.
\<close>

definition reserved :: "nat \<Rightarrow> junk \<Rightarrow> redolog \<Rightarrow> u64 \<Rightarrow> nat \<Rightarrow> redolog" where
  "reserved C junk s key h =
     (let s2 = s\<lparr>ht_tbl := (ht_tbl s)[h := \<lparr>vVer = ht_ver s, cAddr = key, vIdx = vec_count s\<rparr>],
                 vec_chunks := (vec_chunks s)
                    [vec_count s := (vec_chunks s ! vec_count s)\<lparr>bAddr := key, vBytes := 0\<rparr>],
                 vec_count := Suc (vec_count s)\<rparr>
      in if vec_count s2 = vec_cap s2
         then s2\<lparr>vec_cap := 2 * vec_cap s2,
                 vec_chunks := take (vec_count s2) (vec_chunks s2)
                                 @ drop (vec_count s2) (malloc_chunks C junk (2 * vec_cap s2))\<rparr>
         else s2)"

definition index_sized :: "redolog \<Rightarrow> bool" where
  "index_sized s =
     ((ht_shift s = 32 \<and> ht_len s = 0)
      \<or> (ht_shift s = 1 \<and> ht_len s = 2 ^ 64 - 2 ^ 31)
      \<or> (2 \<le> ht_shift s \<and> ht_shift s \<le> 31 \<and> ht_len s = 2 ^ (32 - ht_shift s)))"

text \<open>
  The bytes a log holds: \<open>log_byte C s a\<close> is the payload byte for address \<open>a\<close> in
  the chunk in use with the base of \<open>a\<close>, if that byte is marked valid.  An insertion is
  an address with the bytes of a scalar; \<open>scalar_ok\<close>: the scalar has 1, 2, 4 or 8 bytes
  and is naturally aligned.  \<open>overwrite\<close> lays the bytes of one insertion over a map from
  addresses to bytes, so that \<open>last_inserted ws a\<close> is the byte most recently inserted at
  \<open>a\<close> by the insertions \<open>ws\<close>, taken in order.  \<open>insert_all\<close> performs them on a
  log, one after the other.
\<close>

definition log_byte :: "nat \<Rightarrow> redolog \<Rightarrow> u64 \<Rightarrow> u8 option" where
  "log_byte C s a =
     (case find (\<lambda>c. bAddr c = a AND NOT (MASK C)) (take (vec_count s) (vec_chunks s)) of
        None \<Rightarrow> None
      | Some c \<Rightarrow> if bit (vBytes c) (unat (a AND MASK C))
                  then Some (data c ! unat (a AND MASK C)) else None)"

type_synonym insertion = "u64 \<times> u8 list"

definition overwrite :: "insertion \<Rightarrow> (u64 \<Rightarrow> u8 option) \<Rightarrow> u64 \<Rightarrow> u8 option" where
  "overwrite wr m a =
     (if unat (a - fst wr) < length (snd wr) then Some (snd wr ! unat (a - fst wr)) else m a)"

definition last_inserted :: "insertion list \<Rightarrow> u64 \<Rightarrow> u8 option" where
  "last_inserted ws = fold overwrite ws (\<lambda>_. None)"

definition scalar_ok :: "insertion \<Rightarrow> bool" where
  "scalar_ok wr = (length (snd wr) \<in> {1, 2, 4, 8} \<and> unat (fst wr) mod length (snd wr) = 0)"

fun insert_all :: "nat \<Rightarrow> junk \<Rightarrow> redolog \<Rightarrow> insertion list \<Rightarrow> (fault + redolog) option" where
  "insert_all C junk s [] = Some (Inr s)"
| "insert_all C junk s (wr # ws) =
     (case insert_log C junk s (fst wr) (snd wr) of
        None \<Rightarrow> None
      | Some (Inl e) \<Rightarrow> Some (Inl e)
      | Some (Inr s') \<Rightarrow> insert_all C junk s' ws)"

text \<open>
  The logs a program can have: built by the constructor, with a positive initial
  capacity whose triple does not wrap, and then used through \<^verbatim>\<open>insert\<close>, with naturally
  aligned scalars, and \<^verbatim>\<open>clear\<close>.
\<close>

inductive reachable :: "nat \<Rightarrow> junk \<Rightarrow> redolog \<Rightarrow> bool" for C :: nat and junk :: junk where
  constructed: "redolog_init C junk cap = Inr s \<Longrightarrow> 0 < cap \<Longrightarrow> SPILL_FACTOR * cap < 2 ^ 64
                  \<Longrightarrow> reachable C junk s"
| inserted: "reachable C junk s \<Longrightarrow> scalar_ok (addr, val)
               \<Longrightarrow> insert_log C junk s addr val = Some (Inr s') \<Longrightarrow> reachable C junk s'"
| cleared: "reachable C junk s \<Longrightarrow> reachable C junk (clear s)"


section \<open>Properties of the engine\<close>

lemma rollback_orecs_tsc: "tsc_reads (rollback_orecs ps m) = tsc_reads m \<and> tsc (rollback_orecs ps m) = tsc m"
  by (induction ps arbitrary: m) (simp_all add: store_curr_def)

lemma bump_orecs_tsc: "tsc_reads (bump_orecs ps m) = tsc_reads m \<and> tsc (bump_orecs ps m) = tsc m"
  by (induction ps arbitrary: m) (simp_all add: store_curr_def)

lemma rollback_orecs_prev: "prev (orecs (rollback_orecs ps m) p) = prev (orecs m p)"
  by (induction ps arbitrary: m) (simp_all add: store_curr_def)

lemma bump_orecs_prev: "prev (orecs (bump_orecs ps m) p) = prev (orecs m p)"
  by (induction ps arbitrary: m) (simp_all add: store_curr_def)

lemma rollback_orecs_other: "p \<notin> set ps \<Longrightarrow> orecs (rollback_orecs ps m) p = orecs m p"
  by (induction ps arbitrary: m) (simp_all add: store_curr_def)

lemma bump_orecs_other: "p \<notin> set ps \<Longrightarrow> orecs (bump_orecs ps m) p = orecs m p"
  by (induction ps arbitrary: m) (simp_all add: store_curr_def)

lemma rollback_orecs_curr:
  "p \<in> set ps \<Longrightarrow> curr (orecs (rollback_orecs ps m) p) = prev (orecs m p)"
proof (induction ps arbitrary: m)
  case Nil
  then show ?case by simp
next
  case (Cons q ps)
  show ?case
  proof (cases "p \<in> set ps")
    case True
    then show ?thesis using Cons.IH [of "store_curr q (prev (orecs m q)) m"]
      by (simp add: store_curr_def)
  next
    case False
    with Cons.prems have "p = q" by simp
    with False show ?thesis
      by (simp add: rollback_orecs_other store_curr_def)
  qed
qed

lemma bump_orecs_curr:
  "p \<in> set ps \<Longrightarrow> curr (orecs (bump_orecs ps m) p) = prev (orecs m p) + 1"
proof (induction ps arbitrary: m)
  case Nil
  then show ?case by simp
next
  case (Cons q ps)
  show ?case
  proof (cases "p \<in> set ps")
    case True
    then show ?thesis using Cons.IH [of "store_curr q (prev (orecs m q) + 1) m"]
      by (simp add: store_curr_def)
  next
    case False
    with Cons.prems have "p = q" by simp
    with False show ?thesis
      by (simp add: bump_orecs_other store_curr_def)
  qed
qed


lemma below_LOCK_BIT_unlocked:
  fixes v :: u64
  assumes "v < LOCK_BIT"
  shows "v AND LOCK_BIT = 0"
proof -
  have "unat v < 2 ^ 63"
    using assms by (simp add: LOCK_BIT_def word_less_nat_alt)
  then have "\<not> bit (unat v) 63"
    by (simp add: bit_iff_odd)
  then have nb: "\<not> bit v 63"
    by (simp add: bit_unsigned_iff)
  have "v AND push_bit 63 1 = 0"
  proof (rule bit_word_eqI)
    fix n assume "n < LENGTH(64)"
    show "bit (v AND push_bit 63 1) n = bit (0::u64) n"
      using nb by (cases "n = 63") (simp_all only: bit_and_iff bit_push_bit_iff bit_1_iff, auto)
  qed
  then show ?thesis
    by (simp only: LOCK_BIT_def)
qed

text \<open>
  Claim C3.  \<^verbatim>\<open>unwind(how)\<close> stores END_OF_TIME to \<open>start_time\<close>, clears \<open>locks\<close>, sets
  \<open>unwound\<close>, and sets the \<open>curr\<close> of every orec of the locks list to its saved \<open>prev\<close>
  (ROLLBACK) or to \<open>prev + 1\<close> (BUMP); every other orec, every \<open>prev\<close> and the clock are
  untouched.  The \<^verbatim>\<open>wo_end\<close> that follows only clears the flag: the machine (orecs and
  clock-read count) and \<open>last_wo_end_time\<close> are as \<^verbatim>\<open>unwind\<close> left them.
\<close>

theorem unwind_restores_orecs:
  assumes "unwind ctx how m = (ctx', m')"
  shows "start_time ctx' = END_OF_TIME \<and> locks ctx' = [] \<and> unwound ctx'
       \<and> my_lock ctx' = my_lock ctx \<and> last_wo_end_time ctx' = last_wo_end_time ctx
       \<and> (\<forall>p \<in> set (locks ctx).
             curr (orecs m' p) = (case how of ROLLBACK_ORECS \<Rightarrow> prev (orecs m p)
                                           | BUMP_ORECS \<Rightarrow> prev (orecs m p) + 1)
             \<and> prev (orecs m' p) = prev (orecs m p))
       \<and> (\<forall>p. p \<notin> set (locks ctx) \<longrightarrow> orecs m' p = orecs m p)
       \<and> tsc_reads m' = tsc_reads m
       \<and> wo_end ctx' m' = (ctx'\<lparr>unwound := False\<rparr>, m')"
proof -
  have c: "ctx' = ctx\<lparr>unwound := True, start_time := END_OF_TIME, locks := []\<rparr>"
    using assms by (auto simp: unwind_def Let_def)
  have m: "m' = (if how = ROLLBACK_ORECS then rollback_orecs (locks ctx) m
                 else bump_orecs (locks ctx) m)"
    using assms by (auto simp: unwind_def Let_def)
  have bump: "how \<noteq> ROLLBACK_ORECS \<Longrightarrow> how = BUMP_ORECS"
    by (cases how) simp_all
  have 1: "\<forall>p \<in> set (locks ctx).
             curr (orecs m' p) = (case how of ROLLBACK_ORECS \<Rightarrow> prev (orecs m p)
                                           | BUMP_ORECS \<Rightarrow> prev (orecs m p) + 1)
             \<and> prev (orecs m' p) = prev (orecs m p)"
    using m bump
    by (cases how)
       (simp_all add: rollback_orecs_curr bump_orecs_curr rollback_orecs_prev bump_orecs_prev)
  have 2: "\<forall>p. p \<notin> set (locks ctx) \<longrightarrow> orecs m' p = orecs m p"
    using m by (simp add: rollback_orecs_other bump_orecs_other)
  have 3: "tsc_reads m' = tsc_reads m"
    using m by (simp add: rollback_orecs_tsc bump_orecs_tsc)
  have 4: "wo_end ctx' m' = (ctx'\<lparr>unwound := False\<rparr>, m')"
    using c by (simp add: wo_end_def)
  from c 1 2 3 4 show ?thesis by simp
qed

theorem unwind_restores_orecs_witness:
  "(case unwind ex_ctx BUMP_ORECS ex_machine of (ctx', m') \<Rightarrow>
      start_time ctx' = END_OF_TIME \<and> locks ctx' = [] \<and> unwound ctx'
      \<and> curr (orecs m' 1) = 6 \<and> curr (orecs m' 2) = 10
      \<and> orecs m' 3 = orecs ex_machine 3 \<and> orecs m' 4 = orecs ex_machine 4
      \<and> tsc_reads m' = 0
      \<and> wo_end ctx' m' = (ctx'\<lparr>unwound := False\<rparr>, m'))
   \<and> (case unwind ex_ctx ROLLBACK_ORECS ex_machine of (ctx', m') \<Rightarrow>
      curr (orecs m' 1) = 5 \<and> curr (orecs m' 2) = 9
      \<and> wo_end ctx' m' = (ctx'\<lparr>unwound := False\<rparr>, m'))"
proof -
  obtain c1 m1 where u1: "unwind ex_ctx BUMP_ORECS ex_machine = (c1, m1)"
    by (cases "unwind ex_ctx BUMP_ORECS ex_machine")
  obtain c2 m2 where u2: "unwind ex_ctx ROLLBACK_ORECS ex_machine = (c2, m2)"
    by (cases "unwind ex_ctx ROLLBACK_ORECS ex_machine")
  have l: "locks ex_ctx = [1, 2]" by (simp add: ex_ctx_def)
  have p: "prev (orecs ex_machine 1) = 5" "prev (orecs ex_machine 2) = 9"
    by (simp_all add: ex_machine_def)
  show ?thesis
    using unwind_restores_orecs [OF u1] unwind_restores_orecs [OF u2] u1 u2 l p
    by (simp add: ex_machine_def)
qed

text \<open>
  Claim C2 (as amended).  \<^verbatim>\<open>acquire_consistent(o)\<close>, with \<open>v\<close> the loaded value of
  \<open>o.curr\<close>: returns true at once when \<open>v\<close> is the caller's lock word; returns false when
  \<open>v > start_time\<close>; otherwise it CASes \<open>v \<rightarrow> my_lock\<close>, and on success records
  \<open>prev = v\<close>, appends \<open>o\<close> to \<open>locks\<close> and returns true, on failure returns false.
  Within this operation the orec becomes acquired only through that successful CAS from a
  \<open>v \<le> start_time\<close>; such a \<open>v\<close> is unlocked whenever \<open>start_time\<close> is below the
  lock bit (a clock value rather than END_OF_TIME).
\<close>

theorem acquire_consistent_cases:
  assumes "acquire_consistent ctx env p m = (r, ctx', m')"
    and "v = curr (orecs m p)"
  shows "(v = my_lock ctx \<longrightarrow> r \<and> ctx' = ctx \<and> m' = m)
       \<and> (v \<noteq> my_lock ctx \<and> v > start_time ctx \<longrightarrow> \<not> r \<and> ctx' = ctx \<and> m' = m)
       \<and> (v \<noteq> my_lock ctx \<and> v \<le> start_time ctx \<and> curr (orecs (env m) p) = v \<longrightarrow>
            r \<and> ctx' = ctx\<lparr>locks := locks ctx @ [p]\<rparr>
            \<and> m' = store_prev p v (store_curr p (my_lock ctx) (env m))
            \<and> curr (orecs m' p) = my_lock ctx \<and> prev (orecs m' p) = v)
       \<and> (v \<noteq> my_lock ctx \<and> v \<le> start_time ctx \<and> curr (orecs (env m) p) \<noteq> v \<longrightarrow>
            \<not> r \<and> ctx' = ctx \<and> m' = env m)
       \<and> ((r \<and> v \<noteq> my_lock ctx) \<or> locks ctx' \<noteq> locks ctx \<longrightarrow>
            v \<le> start_time ctx \<and> curr (orecs (env m) p) = v
            \<and> locks ctx' = locks ctx @ [p]
            \<and> curr (orecs m' p) = my_lock ctx \<and> prev (orecs m' p) = v
            \<and> (start_time ctx < LOCK_BIT \<longrightarrow> v AND LOCK_BIT = 0))"
proof -
  have unl: "v \<le> start_time ctx \<Longrightarrow> start_time ctx < LOCK_BIT \<Longrightarrow> v AND LOCK_BIT = 0"
    by (rule below_LOCK_BIT_unlocked) simp
  show ?thesis
    using assms unl
    by (auto simp: acquire_consistent_def compare_exchange_strong_def Let_def
                   store_curr_def store_prev_def not_less
             split: if_splits)
qed



lemma ex_machine_curr:
  shows v5: "(0::u64) = curr (orecs ex_machine 5)"
    and v3: "(100::u64) = curr (orecs ex_machine 3)"
    and v1: "LOCK_BIT OR 8 = curr (orecs ex_machine 1)"
  by (simp_all add: ex_machine_def)

lemma ex_ctx_fields:
  shows st: "start_time ex_ctx = 50" and ml: "my_lock ex_ctx = LOCK_BIT OR 8"
    and lk: "locks ex_ctx = [1, 2]"
  by (simp_all add: ex_ctx_def exotm_init_def)

lemma ex_lock_words:
  shows lt: "(50::u64) < LOCK_BIT" and ne: "(0::u64) \<noteq> LOCK_BIT OR 8"
    and ne': "(100::u64) \<noteq> LOCK_BIT OR 8"
  by (simp_all add: LOCK_BIT_def)

theorem acquire_consistent_cases_witness:
  "acquire_consistent ex_ctx id 5 ex_machine
     = (True, ex_ctx\<lparr>locks := locks ex_ctx @ [5]\<rparr>,
        store_prev 5 0 (store_curr 5 (my_lock ex_ctx) (id ex_machine)))
   \<and> (0::u64) AND LOCK_BIT = 0
   \<and> acquire_consistent ex_ctx (store_curr 5 77) 5 ex_machine
     = (False, ex_ctx, store_curr 5 77 ex_machine)
   \<and> acquire_consistent ex_ctx id 3 ex_machine = (False, ex_ctx, ex_machine)
   \<and> acquire_consistent ex_ctx id 1 ex_machine = (True, ex_ctx, ex_machine)"
proof -
  obtain r1 c1 m1 where a1: "acquire_consistent ex_ctx id 5 ex_machine = (r1, c1, m1)"
    by (cases "acquire_consistent ex_ctx id 5 ex_machine")
  obtain r2 c2 m2 where a2: "acquire_consistent ex_ctx (store_curr 5 77) 5 ex_machine = (r2, c2, m2)"
    by (cases "acquire_consistent ex_ctx (store_curr 5 77) 5 ex_machine")
  obtain r3 c3 m3 where a3: "acquire_consistent ex_ctx id 3 ex_machine = (r3, c3, m3)"
    by (cases "acquire_consistent ex_ctx id 3 ex_machine")
  obtain r4 c4 m4 where a4: "acquire_consistent ex_ctx id 1 ex_machine = (r4, c4, m4)"
    by (cases "acquire_consistent ex_ctx id 1 ex_machine")
  have pre5: "0 \<noteq> my_lock ex_ctx" "0 \<le> start_time ex_ctx"
     "curr (orecs (id ex_machine) 5) = 0" "start_time ex_ctx < LOCK_BIT"
     "curr (orecs (store_curr 5 77 ex_machine) 5) \<noteq> 0"
    using ne lt by (simp_all add: ml st v5 [symmetric] store_curr_def)
  have pre3: "100 \<noteq> my_lock ex_ctx" "100 > start_time ex_ctx"
    using ne' by (simp_all add: ml st)
  have pre1: "LOCK_BIT OR 8 = my_lock ex_ctx"
    by (simp add: ml)
  have g1: "r1 \<and> c1 = ex_ctx\<lparr>locks := locks ex_ctx @ [5]\<rparr>
            \<and> m1 = store_prev 5 0 (store_curr 5 (my_lock ex_ctx) (id ex_machine))
            \<and> (0::u64) AND LOCK_BIT = 0"
    using acquire_consistent_cases [OF a1 v5] pre5 by blast
  have g2: "\<not> r2 \<and> c2 = ex_ctx \<and> m2 = store_curr 5 77 ex_machine"
    using acquire_consistent_cases [OF a2 v5] pre5 by blast
  have g3: "\<not> r3 \<and> c3 = ex_ctx \<and> m3 = ex_machine"
    using acquire_consistent_cases [OF a3 v3] pre3 by blast
  have g4: "r4 \<and> c4 = ex_ctx \<and> m4 = ex_machine"
    using acquire_consistent_cases [OF a4 v1] pre1 by blast
  have h1: "acquire_consistent ex_ctx id 5 ex_machine
     = (True, ex_ctx\<lparr>locks := locks ex_ctx @ [5]\<rparr>,
        store_prev 5 0 (store_curr 5 (my_lock ex_ctx) (id ex_machine)))"
    using a1 g1 by simp
  have h2: "acquire_consistent ex_ctx (store_curr 5 77) 5 ex_machine
     = (False, ex_ctx, store_curr 5 77 ex_machine)"
    using a2 g2 by simp
  have h3: "acquire_consistent ex_ctx id 3 ex_machine = (False, ex_ctx, ex_machine)"
    using a3 g3 by simp
  have h4: "acquire_consistent ex_ctx id 1 ex_machine = (True, ex_ctx, ex_machine)"
    using a4 g4 by simp
  from h1 h2 h3 h4 g1 show ?thesis by blast
qed


text \<open>
  The claim's last sentence, as stated for every engine context and as the sole way to
  acquire, fails: \<^verbatim>\<open>acquire_aggressive\<close> acquires an unlocked orec whose version (100)
  exceeds the caller's \<open>start_time\<close> (50), and \<^verbatim>\<open>acquire_consistent\<close> in an idle
  context (\<open>start_time = END_OF_TIME\<close>) CASes an orec away from another thread's lock word.
\<close>

theorem sole_way_to_acquire_counterexample:
  "(case acquire_aggressive ex_ctx id 3 ex_machine of (r, ctx', m') \<Rightarrow>
      r \<and> locks ctx' = locks ex_ctx @ [3]
      \<and> curr (orecs m' 3) = my_lock ex_ctx \<and> prev (orecs m' 3) = 100)
   \<and> curr (orecs ex_machine 3) = 100 \<and> start_time ex_ctx = 50 \<and> \<not> (100 \<le> (50::u64))
   \<and> (case acquire_consistent (exotm_init 8) id 4 ex_machine of (r, ctx', m') \<Rightarrow>
      r \<and> locks ctx' = [4] \<and> curr (orecs m' 4) = my_lock (exotm_init 8)
      \<and> prev (orecs m' 4) = LOCK_BIT OR 16)
   \<and> curr (orecs ex_machine 4) AND LOCK_BIT \<noteq> 0
   \<and> curr (orecs ex_machine 4) \<noteq> my_lock (exotm_init 8)"
  by (simp add: acquire_aggressive_def acquire_consistent_def compare_exchange_strong_def
        ex_ctx_def ex_machine_def exotm_init_def store_curr_def store_prev_def
        LOCK_BIT_def END_OF_TIME_def)

section \<open>The index of the redo log\<close>

text \<open>
  Linear probing on an index that satisfies \<open>index_ok\<close>: the probing loops stop, and
  find the entry of a key exactly when a chunk in use has it as base.
\<close>

lemma hash_hashv: "hash s key = hashv (ht_shift s) key"
  by (simp add: hash_def hashv_def)

lemma hashv_bound:
  assumes "shift \<le> 32"
  shows "hashv shift key < 2 ^ (32 - shift)"
proof -
  let ?x = "mix13_hash key AND 0xFFFFFFFF"
  have "?x = mix13_hash key AND mask 32" by (simp add: mask_eq_exp_minus_1)
  then have x: "unat ?x < 2 ^ 32"
    by (metis and_mask_lt_2p of_nat_less_numeral_power_cancel_iff of_nat_unat)
  have "(2::nat) ^ 32 = 2 ^ (32 - shift) * 2 ^ shift"
    using assms by (simp flip: power_add)
  with x have "unat ?x < 2 ^ (32 - shift) * 2 ^ shift" by simp
  then have "unat ?x div 2 ^ shift < 2 ^ (32 - shift)"
    by (rule less_mult_imp_div_less)
  moreover have "unat (drop_bit shift ?x) = unat ?x div 2 ^ shift"
  proof -
    have "unat (drop_bit shift ?x) = drop_bit shift (unat ?x)" by (rule unat_drop_bit_eq)
    also have "\<dots> = unat ?x div 2 ^ shift" by (rule drop_bit_eq_div)
    finally show ?thesis .
  qed
  ultimately show ?thesis by (simp only: hashv_def)
qed

lemma least_stop: "P (m::nat) \<Longrightarrow> \<exists>n\<le>m. P n \<and> (\<forall>k<n. \<not> P k)"
proof -
  assume "P m"
  then have "P (LEAST n. P n)" by (rule LeastI)
  moreover have "(LEAST n. P n) \<le> m" using \<open>P m\<close> by (rule Least_le)
  moreover have "\<forall>k<(LEAST n. P n). \<not> P k" using not_less_Least by blast
  ultimately show ?thesis by blast
qed

lemma slot_dist:
  assumes "h0 < L" "h < (L::nat)"
  shows "(h0 + (h + L - h0) mod L) mod L = h" "(h + L - h0) mod L < L"
proof -
  have "(h0 + (h + L - h0) mod L) mod L = (h0 + (h + L - h0)) mod L"
    by (simp add: mod_add_right_eq)
  also have "h0 + (h + L - h0) = h + L" using assms by simp
  also have "(h + L) mod L = h" using assms by simp
  finally show "(h0 + (h + L - h0) mod L) mod L = h" .
  show "(h + L - h0) mod L < L" using assms by simp
qed

lemma dist_slot:
  assumes "h0 < L" "n < (L::nat)"
  shows "((h0 + n) mod L + L - h0) mod L = n"
proof (cases "h0 + n < L")
  case True
  then have "(h0 + n) mod L + L - h0 = n + L" by simp
  with assms show ?thesis by simp
next
  case False
  then have "(h0 + n) mod L = h0 + n - L"
    using assms by (simp add: le_mod_geq)
  with False have "(h0 + n) mod L + L - h0 = n" by simp
  with assms show ?thesis by simp
qed

lemma slot_step: "0 < (L::nat) \<Longrightarrow> (((h0 + 1) mod L) + k) mod L = (h0 + Suc k) mod L"
  by (simp add: mod_add_left_eq)

text \<open>The probing loops stop at the first slot, along the cyclic path, that ends them.\<close>

lemma probe_run:
  assumes len: "length (ht_tbl s) = ht_len s" "0 < ht_len s"
  shows "h0 < ht_len s \<Longrightarrow>
     \<forall>k<n. slot_valid (ht_tbl s) (ht_ver s) ((h0 + k) mod ht_len s)
            \<and> cAddr (ht_tbl s ! ((h0 + k) mod ht_len s)) \<noteq> key \<Longrightarrow>
     \<not> slot_valid (ht_tbl s) (ht_ver s) ((h0 + n) mod ht_len s)
       \<or> cAddr (ht_tbl s ! ((h0 + n) mod ht_len s)) = key \<Longrightarrow>
     probe s key h0 =
       Some (Inr (if slot_valid (ht_tbl s) (ht_ver s) ((h0 + n) mod ht_len s)
                  then Found (vIdx (ht_tbl s ! ((h0 + n) mod ht_len s)))
                  else Unused ((h0 + n) mod ht_len s)))"
proof (induction n arbitrary: h0)
  case 0
  then show ?case
    using len by (subst probe.simps) (auto simp: slot_valid_def)
next
  case (Suc n)
  let ?h1 = "(h0 + 1) mod ht_len s"
  from Suc.prems(2) have v0: "slot_valid (ht_tbl s) (ht_ver s) h0"
    "cAddr (ht_tbl s ! h0) \<noteq> key"
    using Suc.prems(1) by (auto dest: spec [of _ 0])
  have step: "probe s key h0 = probe s key ?h1"
    using v0 len Suc.prems(1) by (subst probe.simps) (simp add: slot_valid_def)
  have h1: "?h1 < ht_len s" using len by simp
  have pre: "\<forall>k<n. slot_valid (ht_tbl s) (ht_ver s) ((?h1 + k) mod ht_len s)
            \<and> cAddr (ht_tbl s ! ((?h1 + k) mod ht_len s)) \<noteq> key"
  proof (intro allI impI)
    fix k assume "k < n"
    then have "Suc k < Suc n" by simp
    with Suc.prems(2) show "slot_valid (ht_tbl s) (ht_ver s) ((?h1 + k) mod ht_len s)
            \<and> cAddr (ht_tbl s ! ((?h1 + k) mod ht_len s)) \<noteq> key"
      unfolding slot_step [OF len(2)] by blast
  qed
  have stop: "\<not> slot_valid (ht_tbl s) (ht_ver s) ((?h1 + n) mod ht_len s)
       \<or> cAddr (ht_tbl s ! ((?h1 + n) mod ht_len s)) = key"
    using Suc.prems(3) unfolding slot_step [OF len(2)] .
  from Suc.IH [OF h1 pre stop] step show ?case
    unfolding slot_step [OF len(2)] by simp
qed

lemma next_unused_run:
  assumes len: "length (ht_tbl s) = ht_len s" "0 < ht_len s"
  shows "h0 < ht_len s \<Longrightarrow>
     \<forall>k<n. slot_valid (ht_tbl s) (ht_ver s) ((h0 + k) mod ht_len s) \<Longrightarrow>
     \<not> slot_valid (ht_tbl s) (ht_ver s) ((h0 + n) mod ht_len s) \<Longrightarrow>
     next_unused s h0 = Some (Inr ((h0 + n) mod ht_len s))"
proof (induction n arbitrary: h0)
  case 0
  then show ?case
    using len by (subst next_unused.simps) (auto simp: slot_valid_def)
next
  case (Suc n)
  let ?h1 = "(h0 + 1) mod ht_len s"
  from Suc.prems(2) have v0: "slot_valid (ht_tbl s) (ht_ver s) h0"
    using Suc.prems(1) by (auto dest: spec [of _ 0])
  have step: "next_unused s h0 = next_unused s ?h1"
    using v0 len Suc.prems(1) by (subst next_unused.simps) (simp add: slot_valid_def)
  have h1: "?h1 < ht_len s" using len by simp
  have pre: "\<forall>k<n. slot_valid (ht_tbl s) (ht_ver s) ((?h1 + k) mod ht_len s)"
  proof (intro allI impI)
    fix k assume "k < n"
    then have "Suc k < Suc n" by simp
    with Suc.prems(2) show "slot_valid (ht_tbl s) (ht_ver s) ((?h1 + k) mod ht_len s)"
      unfolding slot_step [OF len(2)] by blast
  qed
  have stop: "\<not> slot_valid (ht_tbl s) (ht_ver s) ((?h1 + n) mod ht_len s)"
    using Suc.prems(3) unfolding slot_step [OF len(2)] .
  from Suc.IH [OF h1 pre stop] step show ?case
    unfolding slot_step [OF len(2)] by simp
qed

lemma index_ok_card:
  assumes "index_ok tbl ver shift chunks n"
  shows "card {h. h < length tbl \<and> slot_valid tbl ver h} \<le> n"
proof -
  let ?V = "{h. h < length tbl \<and> slot_valid tbl ver h}"
  have inj: "inj_on (\<lambda>h. vIdx (tbl ! h)) ?V"
    using assms unfolding index_ok_def inj_on_def by blast
  have sub: "(\<lambda>h. vIdx (tbl ! h)) ` ?V \<subseteq> {..<n}"
    using assms unfolding index_ok_def by blast
  have "card ?V = card ((\<lambda>h. vIdx (tbl ! h)) ` ?V)"
    using inj by (simp add: card_image)
  also have "\<dots> \<le> card {..<n}"
    using sub by (intro card_mono) simp_all
  finally show ?thesis by simp
qed

lemma index_ok_free_slot:
  assumes "index_ok tbl ver shift chunks n" "n < length tbl"
  shows "\<exists>h<length tbl. \<not> slot_valid tbl ver h"
proof (rule ccontr)
  assume "\<not> (\<exists>h<length tbl. \<not> slot_valid tbl ver h)"
  then have "{h. h < length tbl \<and> slot_valid tbl ver h} = {..<length tbl}" by auto
  with index_ok_card [OF assms(1)] have "length tbl \<le> n" by simp
  with assms(2) show False by simp
qed

lemma probe_stops:
  assumes len: "length (ht_tbl s) = ht_len s" "0 < ht_len s"
    and free: "\<exists>h<ht_len s. \<not> slot_valid (ht_tbl s) (ht_ver s) h"
    and h0: "h0 < ht_len s"
  shows "\<exists>n<ht_len s.
           (\<forall>k<n. slot_valid (ht_tbl s) (ht_ver s) ((h0 + k) mod ht_len s)
                   \<and> cAddr (ht_tbl s ! ((h0 + k) mod ht_len s)) \<noteq> key)
         \<and> (\<not> slot_valid (ht_tbl s) (ht_ver s) ((h0 + n) mod ht_len s)
              \<or> cAddr (ht_tbl s ! ((h0 + n) mod ht_len s)) = key)
         \<and> probe s key h0 =
             Some (Inr (if slot_valid (ht_tbl s) (ht_ver s) ((h0 + n) mod ht_len s)
                        then Found (vIdx (ht_tbl s ! ((h0 + n) mod ht_len s)))
                        else Unused ((h0 + n) mod ht_len s)))"
proof -
  let ?L = "ht_len s"
  let ?P = "\<lambda>k. \<not> slot_valid (ht_tbl s) (ht_ver s) ((h0 + k) mod ?L)
              \<or> cAddr (ht_tbl s ! ((h0 + k) mod ?L)) = key"
  from free obtain hf where hf: "hf < ?L" "\<not> slot_valid (ht_tbl s) (ht_ver s) hf" by blast
  let ?m = "(hf + ?L - h0) mod ?L"
  have "?P ?m" using slot_dist(1) [OF h0 hf(1)] hf(2) by simp
  from least_stop [of ?P, OF this] obtain n where
    n: "n \<le> ?m" "?P n" "\<forall>k<n. \<not> ?P k" by blast
  have nL: "n < ?L" using n(1) slot_dist(2) [OF h0 hf(1)] by simp
  have pre: "\<forall>k<n. slot_valid (ht_tbl s) (ht_ver s) ((h0 + k) mod ?L)
                   \<and> cAddr (ht_tbl s ! ((h0 + k) mod ?L)) \<noteq> key"
    using n(3) by blast
  from probe_run [OF len h0 pre n(2)] nL pre n(2) show ?thesis by blast
qed

lemma next_unused_stops:
  assumes len: "length (ht_tbl s) = ht_len s" "0 < ht_len s"
    and free: "\<exists>h<ht_len s. \<not> slot_valid (ht_tbl s) (ht_ver s) h"
    and h0: "h0 < ht_len s"
  shows "\<exists>n<ht_len s.
           (\<forall>k<n. slot_valid (ht_tbl s) (ht_ver s) ((h0 + k) mod ht_len s))
         \<and> \<not> slot_valid (ht_tbl s) (ht_ver s) ((h0 + n) mod ht_len s)
         \<and> next_unused s h0 = Some (Inr ((h0 + n) mod ht_len s))"
proof -
  let ?L = "ht_len s"
  let ?P = "\<lambda>k. \<not> slot_valid (ht_tbl s) (ht_ver s) ((h0 + k) mod ?L)"
  from free obtain hf where hf: "hf < ?L" "\<not> slot_valid (ht_tbl s) (ht_ver s) hf" by blast
  let ?m = "(hf + ?L - h0) mod ?L"
  have "?P ?m" using slot_dist(1) [OF h0 hf(1)] hf(2) by simp
  from least_stop [of ?P, OF this] obtain n where
    n: "n \<le> ?m" "?P n" "\<forall>k<n. \<not> ?P k" by blast
  have nL: "n < ?L" using n(1) slot_dist(2) [OF h0 hf(1)] by simp
  have pre: "\<forall>k<n. slot_valid (ht_tbl s) (ht_ver s) ((h0 + k) mod ?L)"
    using n(3) by blast
  from next_unused_run [OF len h0 pre n(2)] nL pre n(2) show ?thesis by blast
qed

lemma slot_valid_update:
  assumes "x < length tbl"
  shows "slot_valid (tbl[h := \<lparr>vVer = ver, cAddr = key, vIdx = n\<rparr>]) ver x
           \<longleftrightarrow> x = h \<or> slot_valid tbl ver x"
  using assms by (cases "x = h") (simp_all add: slot_valid_def)

text \<open>Entering chunk \<open>n\<close> at the first free slot of its probe path keeps the index sound.\<close>

lemma index_insert:
  assumes ok: "index_ok tbl ver shift chunks n"
    and h: "h < length tbl" "\<not> slot_valid tbl ver h"
    and path: "\<forall>k < (h + length tbl - hashv shift key) mod length tbl.
                 slot_valid tbl ver ((hashv shift key + k) mod length tbl)"
    and key: "bAddr (chunks' ! n) = key"
    and same: "\<forall>i<n. bAddr (chunks' ! i) = bAddr (chunks ! i)"
  shows "index_ok (tbl[h := \<lparr>vVer = ver, cAddr = key, vIdx = n\<rparr>]) ver shift chunks' (Suc n)"
proof -
  let ?e = "\<lparr>vVer = ver, cAddr = key, vIdx = n\<rparr>"
  let ?t = "tbl[h := ?e]"
  let ?L = "length tbl"
  have L: "length ?t = ?L" by simp
  have L0: "0 < ?L" using h(1) by (cases tbl) simp_all
  have sv: "slot_valid ?t ver x \<longleftrightarrow> x = h \<or> slot_valid tbl ver x" if "x < ?L" for x
    using that by (rule slot_valid_update)
  have at_h: "?t ! h = ?e" using h(1) by simp
  have other: "?t ! x = tbl ! x" if "x \<noteq> h" for x using that by simp
  from ok have
    a: "\<And>x. x < ?L \<Longrightarrow> slot_valid tbl ver x \<Longrightarrow>
          vIdx (tbl ! x) < n \<and> cAddr (tbl ! x) = bAddr (chunks ! vIdx (tbl ! x))
          \<and> (\<forall>k < (x + ?L - hashv shift (cAddr (tbl ! x))) mod ?L.
                slot_valid tbl ver ((hashv shift (cAddr (tbl ! x)) + k) mod ?L))"
    and c: "\<And>x y. x < ?L \<Longrightarrow> y < ?L \<Longrightarrow> slot_valid tbl ver x \<Longrightarrow> slot_valid tbl ver y
          \<Longrightarrow> vIdx (tbl ! x) = vIdx (tbl ! y) \<Longrightarrow> x = y"
    and b: "\<And>i. i < n \<Longrightarrow> \<exists>x<?L. slot_valid tbl ver x \<and> vIdx (tbl ! x) = i"
    unfolding index_ok_def by blast+
  have A: "vIdx (?t ! x) < Suc n \<and> cAddr (?t ! x) = bAddr (chunks' ! vIdx (?t ! x))
          \<and> (\<forall>k < (x + ?L - hashv shift (cAddr (?t ! x))) mod ?L.
                slot_valid ?t ver ((hashv shift (cAddr (?t ! x)) + k) mod ?L))"
    if x: "x < ?L" and v: "slot_valid ?t ver x" for x
  proof (cases "x = h")
    case True
    have "\<forall>k < (h + ?L - hashv shift key) mod ?L.
            slot_valid ?t ver ((hashv shift key + k) mod ?L)"
      using path L0 by (simp add: sv)
    with True at_h key show ?thesis by simp
  next
    case False
    with v x have vx: "slot_valid tbl ver x" by (simp add: sv)
    from a [OF x vx] have 1: "vIdx (tbl ! x) < n"
      and 2: "cAddr (tbl ! x) = bAddr (chunks ! vIdx (tbl ! x))"
      and 3: "\<forall>k < (x + ?L - hashv shift (cAddr (tbl ! x))) mod ?L.
                slot_valid tbl ver ((hashv shift (cAddr (tbl ! x)) + k) mod ?L)"
      by blast+
    from 3 have "\<forall>k < (x + ?L - hashv shift (cAddr (tbl ! x))) mod ?L.
                slot_valid ?t ver ((hashv shift (cAddr (tbl ! x)) + k) mod ?L)"
      using L0 by (simp add: sv)
    with 1 2 same other [OF False] show ?thesis by simp
  qed
  have Cc: "x = y"
    if x: "x < ?L" and y: "y < ?L" and vx: "slot_valid ?t ver x" and vy: "slot_valid ?t ver y"
      and e: "vIdx (?t ! x) = vIdx (?t ! y)" for x y
  proof (cases "x = h")
    case True
    show ?thesis
    proof (cases "y = h")
      case True
      with \<open>x = h\<close> show ?thesis by simp
    next
      case False
      with vy y have "slot_valid tbl ver y" by (simp add: sv)
      from a [OF y this] have "vIdx (tbl ! y) < n" by blast
      with e True False at_h show ?thesis by simp
    qed
  next
    case False
    with vx x have vx': "slot_valid tbl ver x" by (simp add: sv)
    show ?thesis
    proof (cases "y = h")
      case True
      from a [OF x vx'] have "vIdx (tbl ! x) < n" by blast
      with e True False at_h show ?thesis by simp
    next
      case yh: False
      with vy y have "slot_valid tbl ver y" by (simp add: sv)
      with c [OF x y vx'] e False yh show ?thesis by simp
    qed
  qed
  have B: "\<exists>x<?L. slot_valid ?t ver x \<and> vIdx (?t ! x) = i" if i: "i < Suc n" for i
  proof (cases "i = n")
    case True
    with h(1) at_h show ?thesis by (intro exI [of _ h]) (simp add: sv)
  next
    case False
    with i have "i < n" by simp
    from b [OF this] obtain x where x: "x < ?L" "slot_valid tbl ver x" "vIdx (tbl ! x) = i"
      by blast
    with h(2) have "x \<noteq> h" by blast
    with x show ?thesis by (intro exI [of _ x]) (simp add: sv)
  qed
  show ?thesis
    unfolding index_ok_def L using A Cc B by blast
qed

lemma inv_len:
  assumes "redolog_inv C s"
  shows "length (ht_tbl s) = ht_len s" "0 < ht_len s" "hash s key < ht_len s"
    "ht_len s \<le> 2 ^ 30" "vec_count s < ht_len s"
proof -
  from assms have l: "length (ht_tbl s) = ht_len s" and sh: "2 \<le> ht_shift s" "ht_shift s \<le> 31"
    and e: "ht_len s = 2 ^ (32 - ht_shift s)" and c: "vec_count s * SPILL_FACTOR < ht_len s"
    by (simp_all add: redolog_inv_def)
  show "length (ht_tbl s) = ht_len s" by (rule l)
  show "0 < ht_len s" using e by simp
  have "hashv (ht_shift s) key < 2 ^ (32 - ht_shift s)"
    using sh by (intro hashv_bound) simp
  then show "hash s key < ht_len s" by (simp add: hash_hashv e)
  have "(2::nat) ^ (32 - ht_shift s) \<le> 2 ^ 30"
    using sh by (intro power_increasing) simp_all
  then show "ht_len s \<le> 2 ^ 30" by (simp add: e)
  show "vec_count s < ht_len s" using c by (simp add: SPILL_FACTOR_def)
qed

lemma inv_index:
  assumes "redolog_inv C s"
  shows "index_ok (ht_tbl s) (ht_ver s) (ht_shift s) (vec_chunks s) (vec_count s)"
    "chunks_wf C s"
  using assms by (simp_all add: redolog_inv_def)

lemma inv_free_slot:
  assumes "redolog_inv C s"
  shows "\<exists>h<ht_len s. \<not> slot_valid (ht_tbl s) (ht_ver s) h"
  using index_ok_free_slot [OF inv_index(1) [OF assms]] inv_len(1,5) [OF assms] by simp

text \<open>What the probing loop of \<^verbatim>\<open>lookup\<close> and \<^verbatim>\<open>reserve\<close> returns on a sound index.\<close>

lemma inv_probe:
  assumes inv: "redolog_inv C s"
  shows "(\<exists>i<vec_count s. bAddr (vec_chunks s ! i) = key
            \<and> probe s key (hash s key) = Some (Inr (Found i)))
       \<or> (\<exists>h<ht_len s. \<not> slot_valid (ht_tbl s) (ht_ver s) h
            \<and> (\<forall>k < (h + ht_len s - hash s key) mod ht_len s.
                  slot_valid (ht_tbl s) (ht_ver s) ((hash s key + k) mod ht_len s))
            \<and> (\<forall>i<vec_count s. bAddr (vec_chunks s ! i) \<noteq> key)
            \<and> probe s key (hash s key) = Some (Inr (Unused h)))"
proof -
  let ?L = "ht_len s" and ?t = "ht_tbl s" and ?v = "ht_ver s" and ?h0 = "hash s key"
  note len = inv_len(1,2) [OF inv]
  note h0 = inv_len(3) [OF inv, of key]
  from inv_index(1) [OF inv] have
    a: "\<And>x. x < ?L \<Longrightarrow> slot_valid ?t ?v x \<Longrightarrow>
          vIdx (?t ! x) < vec_count s \<and> cAddr (?t ! x) = bAddr (vec_chunks s ! vIdx (?t ! x))
          \<and> (\<forall>k < (x + ?L - hash s (cAddr (?t ! x))) mod ?L.
                slot_valid ?t ?v ((hash s (cAddr (?t ! x)) + k) mod ?L))"
    and b: "\<And>i. i < vec_count s \<Longrightarrow> \<exists>x<?L. slot_valid ?t ?v x \<and> vIdx (?t ! x) = i"
    unfolding index_ok_def len(1) hash_hashv by blast+
  from probe_stops [OF len inv_free_slot [OF inv] h0, of key] obtain n where
    nL: "n < ?L"
    and pre: "\<forall>k<n. slot_valid ?t ?v ((?h0 + k) mod ?L) \<and> cAddr (?t ! ((?h0 + k) mod ?L)) \<noteq> key"
    and stop: "\<not> slot_valid ?t ?v ((?h0 + n) mod ?L) \<or> cAddr (?t ! ((?h0 + n) mod ?L)) = key"
    and res: "probe s key ?h0 =
             Some (Inr (if slot_valid ?t ?v ((?h0 + n) mod ?L)
                        then Found (vIdx (?t ! ((?h0 + n) mod ?L)))
                        else Unused ((?h0 + n) mod ?L)))"
    by blast
  let ?hn = "(?h0 + n) mod ?L"
  have hn: "?hn < ?L" using len(2) by simp
  show ?thesis
  proof (cases "slot_valid ?t ?v ?hn")
    case True
    with stop have k: "cAddr (?t ! ?hn) = key" by blast
    from a [OF hn True] k have "vIdx (?t ! ?hn) < vec_count s"
      "bAddr (vec_chunks s ! vIdx (?t ! ?hn)) = key" by simp_all
    with res True show ?thesis by auto
  next
    case False
    have path: "\<forall>k < (?hn + ?L - ?h0) mod ?L. slot_valid ?t ?v ((?h0 + k) mod ?L)"
      using pre unfolding dist_slot [OF h0 nL] by blast
    have none: "\<forall>i<vec_count s. bAddr (vec_chunks s ! i) \<noteq> key"
    proof (intro allI impI notI)
      fix i assume i: "i < vec_count s" and e: "bAddr (vec_chunks s ! i) = key"
      from b [OF i] obtain x where x: "x < ?L" "slot_valid ?t ?v x" "vIdx (?t ! x) = i" by blast
      from a [OF x(1,2)] x(3) e have kx: "cAddr (?t ! x) = key" by simp
      from a [OF x(1,2)] have "\<forall>k < (x + ?L - hash s (cAddr (?t ! x))) mod ?L.
                slot_valid ?t ?v ((hash s (cAddr (?t ! x)) + k) mod ?L)" by blast
      then have px: "\<forall>k < (x + ?L - ?h0) mod ?L. slot_valid ?t ?v ((?h0 + k) mod ?L)"
        unfolding kx .
      let ?d = "(x + ?L - ?h0) mod ?L"
      have sd: "(?h0 + ?d) mod ?L = x" by (rule slot_dist(1) [OF h0 x(1)])
      consider "n < ?d" | "n = ?d" | "?d < n" by linarith
      then show False
      proof cases
        case 1
        with px False show False by blast
      next
        case 2
        with sd x(2) False show False by simp
      next
        case 3
        with pre sd kx show False by auto
      qed
    qed
    from res False hn path none show ?thesis by auto
  qed
qed

lemma inv_probe_total:
  assumes "redolog_inv C s"
  shows "\<exists>r. probe s key (hash s key) = Some (Inr r)"
  using inv_probe [OF assms, of key] by blast

lemma int_of_size_t_small: "n < 2 ^ 31 \<Longrightarrow> int_of_size_t n = int n"
proof -
  assume n: "n < 2 ^ 31"
  then have "int n < 2 ^ 31" by simp
  moreover have "- (2 ^ 31) \<le> int n" by simp
  ultimately have "signed_take_bit 31 (int n) = int n"
    by (intro signed_take_bit_int_eq_self) simp_all
  then show ?thesis by (simp add: int_of_size_t_def signed_of_nat)
qed

lemma inv_count_small:
  assumes "redolog_inv C s"
  shows "vec_count s < 2 ^ 31"
proof -
  have "vec_count s < 2 ^ 30" using inv_len(4,5) [OF assms] by simp
  then show ?thesis by simp
qed

text \<open>\<^verbatim>\<open>lookup\<close> finds the chunk of a base address exactly when there is one.\<close>

lemma inv_lookup:
  assumes inv: "redolog_inv C s"
  shows "(\<exists>i<vec_count s. bAddr (vec_chunks s ! i) = key \<and> lookup s key = Some (Inr (int i)))
       \<or> ((\<forall>i<vec_count s. bAddr (vec_chunks s ! i) \<noteq> key) \<and> lookup s key = Some (Inr (- 1)))"
proof -
  from inv_probe [OF inv, of key] show ?thesis
  proof (elim disjE exE conjE)
    fix i assume i: "i < vec_count s" "bAddr (vec_chunks s ! i) = key"
      "probe s key (hash s key) = Some (Inr (Found i))"
    have "i < 2 ^ 31" using i(1) inv_count_small [OF inv] by simp
    then have "int_of_size_t i = int i" by (rule int_of_size_t_small)
    with i show ?thesis by (auto simp: lookup_def)
  next
    fix h assume "\<forall>i<vec_count s. bAddr (vec_chunks s ! i) \<noteq> key"
      "probe s key (hash s key) = Some (Inr (Unused h))"
    then show ?thesis by (simp add: lookup_def)
  qed
qed

lemma index_ok_empty:
  assumes "ver \<noteq> 0"
  shows "index_ok (replicate n index_t_init) ver shift chunks 0"
  using assms by (simp add: index_ok_def slot_valid_def index_t_init_def)

lemma index_ok_cong:
  assumes "index_ok tbl ver shift chunks n" "\<forall>i<n. bAddr (chunks' ! i) = bAddr (chunks ! i)"
  shows "index_ok tbl ver shift chunks' n"
proof -
  from assms(1) have
    a: "\<And>x. x < length tbl \<Longrightarrow> slot_valid tbl ver x \<Longrightarrow>
          vIdx (tbl ! x) < n \<and> cAddr (tbl ! x) = bAddr (chunks ! vIdx (tbl ! x))
          \<and> (\<forall>k < (x + length tbl - hashv shift (cAddr (tbl ! x))) mod length tbl.
                slot_valid tbl ver ((hashv shift (cAddr (tbl ! x)) + k) mod length tbl))"
    and cb: "(\<forall>h<length tbl. \<forall>h'<length tbl.
            slot_valid tbl ver h \<and> slot_valid tbl ver h' \<and> vIdx (tbl ! h) = vIdx (tbl ! h')
            \<longrightarrow> h = h')
      \<and> (\<forall>i<n. \<exists>h<length tbl. slot_valid tbl ver h \<and> vIdx (tbl ! h) = i)"
    unfolding index_ok_def by blast+
  have "vIdx (tbl ! x) < n \<and> cAddr (tbl ! x) = bAddr (chunks' ! vIdx (tbl ! x))
          \<and> (\<forall>k < (x + length tbl - hashv shift (cAddr (tbl ! x))) mod length tbl.
                slot_valid tbl ver ((hashv shift (cAddr (tbl ! x)) + k) mod length tbl))"
    if "x < length tbl" "slot_valid tbl ver x" for x
  proof -
    from a [OF that] have 1: "vIdx (tbl ! x) < n"
      and 2: "cAddr (tbl ! x) = bAddr (chunks ! vIdx (tbl ! x))"
      and 3: "\<forall>k < (x + length tbl - hashv shift (cAddr (tbl ! x))) mod length tbl.
                slot_valid tbl ver ((hashv shift (cAddr (tbl ! x)) + k) mod length tbl)"
      by blast+
    from 1 2 assms(2) have "cAddr (tbl ! x) = bAddr (chunks' ! vIdx (tbl ! x))" by simp
    with 1 3 show ?thesis by blast
  qed
  with cb show ?thesis unfolding index_ok_def by blast
qed

lemma set_update_le:
  assumes "\<forall>e \<in> set tbl. vVer e \<le> (ver::u64)"
  shows "\<forall>e \<in> set (tbl[h := \<lparr>vVer = ver, cAddr = key, vIdx = n\<rparr>]). vVer e \<le> ver"
proof
  fix e assume "e \<in> set (tbl[h := \<lparr>vVer = ver, cAddr = key, vIdx = n\<rparr>])"
  then have "e \<in> insert \<lparr>vVer = ver, cAddr = key, vIdx = n\<rparr> (set tbl)"
    using set_update_subset_insert by fastforce
  with assms show "vVer e \<le> ver" by auto
qed

text \<open>The rehashing loop of \<^verbatim>\<open>rebuild\<close> ends, with every chunk indexed.\<close>

lemma rebuild_loop_ok:
  assumes "length (ht_tbl s) = ht_len s" "ht_shift s \<le> 32" "ht_len s = 2 ^ (32 - ht_shift s)"
    and "vec_count s \<le> length (vec_chunks s)" "vec_count s < ht_len s"
    and "index_ok (ht_tbl s) (ht_ver s) (ht_shift s) (vec_chunks s) i" "i \<le> vec_count s"
    and "\<forall>e \<in> set (ht_tbl s). vVer e \<le> ht_ver s"
  shows "\<exists>t. rebuild_loop s i = Some (Inr (s\<lparr>ht_tbl := t\<rparr>)) \<and> length t = ht_len s
           \<and> index_ok t (ht_ver s) (ht_shift s) (vec_chunks s) (vec_count s)
           \<and> (\<forall>e \<in> set t. vVer e \<le> ht_ver s)"
  using assms
proof (induction "vec_count s - i" arbitrary: s i)
  case 0
  then have "i = vec_count s" by simp
  with 0 have "rebuild_loop s i = Some (Inr (s\<lparr>ht_tbl := ht_tbl s\<rparr>))"
    by (subst rebuild_loop.simps) simp
  with 0 \<open>i = vec_count s\<close> show ?case by blast
next
  case (Suc d)
  let ?L = "ht_len s" and ?key = "bAddr (vec_chunks s ! i)"
  from Suc.hyps(2) have i: "i < vec_count s" by simp
  have L0: "0 < ?L" using Suc.prems(3) by simp
  have h0: "hash s ?key < ?L"
    using hashv_bound [OF Suc.prems(2)] by (simp add: hash_hashv Suc.prems(3))
  have "i < length (ht_tbl s)" using i Suc.prems(1,5) by simp
  from index_ok_free_slot [OF Suc.prems(6) this]
  have free: "\<exists>h<?L. \<not> slot_valid (ht_tbl s) (ht_ver s) h" by (simp add: Suc.prems(1))
  from next_unused_stops [OF Suc.prems(1) L0 free h0] obtain n where
    n: "n < ?L" "\<forall>k<n. slot_valid (ht_tbl s) (ht_ver s) ((hash s ?key + k) mod ?L)"
       "\<not> slot_valid (ht_tbl s) (ht_ver s) ((hash s ?key + n) mod ?L)"
       "next_unused s (hash s ?key) = Some (Inr ((hash s ?key + n) mod ?L))"
    by blast
  let ?h = "(hash s ?key + n) mod ?L"
  let ?s1 = "s\<lparr>ht_tbl := (ht_tbl s)[?h := \<lparr>vVer = ht_ver s, cAddr = ?key, vIdx = i\<rparr>]\<rparr>"
  have hL: "?h < length (ht_tbl s)" using L0 by (simp add: Suc.prems(1))
  have path: "\<forall>k < (?h + length (ht_tbl s) - hashv (ht_shift s) ?key) mod length (ht_tbl s).
                 slot_valid (ht_tbl s) (ht_ver s)
                   ((hashv (ht_shift s) ?key + k) mod length (ht_tbl s))"
    using n(2) dist_slot [OF h0 n(1)] by (simp add: Suc.prems(1) hash_hashv)
  have ok1: "index_ok (ht_tbl ?s1) (ht_ver ?s1) (ht_shift ?s1) (vec_chunks ?s1) (Suc i)"
    using index_insert [OF Suc.prems(6) hL _ path, where chunks' = "vec_chunks s"] n(3)
    by (simp add: Suc.prems(1))
  have le1: "\<forall>e \<in> set (ht_tbl ?s1). vVer e \<le> ht_ver ?s1"
    using set_update_le [OF Suc.prems(8)] by simp
  have d1: "d = vec_count ?s1 - Suc i" using Suc.hyps(2) by simp
  have "\<exists>t. rebuild_loop ?s1 (Suc i) = Some (Inr (?s1\<lparr>ht_tbl := t\<rparr>)) \<and> length t = ht_len ?s1
           \<and> index_ok t (ht_ver ?s1) (ht_shift ?s1) (vec_chunks ?s1) (vec_count ?s1)
           \<and> (\<forall>e \<in> set t. vVer e \<le> ht_ver ?s1)"
    using Suc.prems(1-5) i by (intro Suc.hyps(1) [OF d1] ok1 le1) simp_all
  then obtain t where t: "rebuild_loop ?s1 (Suc i) = Some (Inr (s\<lparr>ht_tbl := t\<rparr>))"
    "length t = ht_len s" "index_ok t (ht_ver s) (ht_shift s) (vec_chunks s) (vec_count s)"
    "\<forall>e \<in> set t. vVer e \<le> ht_ver s"
    by auto
  have "rebuild_loop s i = rebuild_loop ?s1 (Suc i)"
    using i Suc.prems(4) n(4) by (subst rebuild_loop.simps) simp
  with t show ?case by auto
qed

lemma rebuild_ok:
  assumes ver: "ht_ver s \<noteq> 0" and sh: "2 \<le> ht_shift s" "ht_shift s \<le> 31"
    and cnt: "vec_count s \<le> length (vec_chunks s)"
      "vec_count s * 3 < 2 * 2 ^ (32 - ht_shift s)"
  shows "(\<exists>e. rebuild s = Some (Inl e))
       \<or> (\<exists>t. rebuild s = Some (Inr (s\<lparr>ht_shift := ht_shift s - 1,
                                          ht_len := 2 ^ (33 - ht_shift s), ht_tbl := t\<rparr>))
             \<and> 3 \<le> ht_shift s \<and> length t = 2 ^ (33 - ht_shift s)
             \<and> index_ok t (ht_ver s) (ht_shift s - 1) (vec_chunks s) (vec_count s)
             \<and> (\<forall>e \<in> set t. vVer e \<le> ht_ver s))"
proof (cases "ht_shift s = 2")
  case True
  then have "doubleIndexLength s = Inr (s\<lparr>ht_shift := 1, ht_len := 2 ^ 64 - 2 ^ 31\<rparr>)"
    by (simp add: doubleIndexLength_def shl_int_1_def)
  moreover have "new_index_tbl (2 ^ 64 - 2 ^ 31) = Inl BadArrayLength"
    by (simp add: new_index_tbl_def)
  ultimately have "rebuild s = Some (Inl BadArrayLength)"
    using ver by (simp add: rebuild_def)
  then show ?thesis by blast
next
  case False
  with sh have sh3: "3 \<le> ht_shift s" by simp
  let ?n = "(2::nat) ^ (33 - ht_shift s)"
  let ?s1 = "s\<lparr>ht_shift := ht_shift s - 1, ht_len := ?n\<rparr>"
  let ?t0 = "replicate ?n index_t_init"
  have e: "32 - (ht_shift s - 1) = 33 - ht_shift s" using sh3 sh by simp
  have lt: "33 - ht_shift s < 31" using sh3 by simp
  have dbl: "doubleIndexLength s = Inr ?s1"
    using sh3 sh lt by (simp add: doubleIndexLength_def shl_int_1_def e Let_def)
  have "?n \<le> 2 ^ 30" using sh3 by (intro power_increasing) simp_all
  then have "?n * 24 < 2 ^ 63" by simp
  then have new: "new_index_tbl ?n = Inr ?t0" by (simp add: new_index_tbl_def)
  have rb: "rebuild s = rebuild_loop (?s1\<lparr>ht_tbl := ?t0\<rparr>) 0"
    using ver dbl new by (simp add: rebuild_def)
  let ?s2 = "?s1\<lparr>ht_tbl := ?t0\<rparr>"
  have two: "2 * (2::nat) ^ (32 - ht_shift s) = ?n"
  proof -
    have "33 - ht_shift s = Suc (32 - ht_shift s)" using sh by simp
    then show ?thesis by simp
  qed
  have c: "vec_count ?s2 < ht_len ?s2" using cnt(2) unfolding two by simp
  have le0: "\<forall>e \<in> set (ht_tbl ?s2). vVer e \<le> ht_ver ?s2"
    by (simp add: index_t_init_def)
  have ok0: "index_ok (ht_tbl ?s2) (ht_ver ?s2) (ht_shift ?s2) (vec_chunks ?s2) 0"
    using index_ok_empty [OF ver] by simp
  have "\<exists>t. rebuild_loop ?s2 0 = Some (Inr (?s2\<lparr>ht_tbl := t\<rparr>)) \<and> length t = ht_len ?s2
           \<and> index_ok t (ht_ver ?s2) (ht_shift ?s2) (vec_chunks ?s2) (vec_count ?s2)
           \<and> (\<forall>e \<in> set t. vVer e \<le> ht_ver ?s2)"
    using sh cnt(1) e by (intro rebuild_loop_ok c ok0 le0) simp_all
  then obtain t where "rebuild_loop ?s2 0 = Some (Inr (?s1\<lparr>ht_tbl := t\<rparr>))" "length t = ?n"
    "index_ok t (ht_ver s) (ht_shift s - 1) (vec_chunks s) (vec_count s)"
    "\<forall>e \<in> set t. vVer e \<le> ht_ver s"
    by auto
  with rb sh3 show ?thesis by auto
qed

lemma rebuild_total:
  assumes "ht_ver s \<noteq> 0" "2 \<le> ht_shift s" "ht_shift s \<le> 31"
    "vec_count s \<le> length (vec_chunks s)" "vec_count s * 3 < 2 * 2 ^ (32 - ht_shift s)"
  shows "\<exists>r. rebuild s = Some r"
  using rebuild_ok [OF assms] by blast

lemma sizeof_chunk_bound:
  assumes "chunksize_ok C"
  shows "0 < sizeof_chunk C" "sizeof_chunk C \<le> 80"
  using assms by (auto simp: chunksize_ok_def sizeof_chunk_def)

lemma malloc_chunks_ok:
  assumes ok: "chunksize_ok C" and n: "n \<le> 2 ^ 31"
  shows "length (malloc_chunks C junk n) = n"
    "\<forall>c \<in> set (malloc_chunks C junk n). length (data c) = C"
proof -
  note sz = sizeof_chunk_bound [OF ok]
  have "n * sizeof_chunk C \<le> 2 ^ 31 * 80"
    using n sz(2) by (rule mult_le_mono)
  then have lt: "n * sizeof_chunk C < 2 ^ 63" by simp
  then have m: "(n * sizeof_chunk C) mod 2 ^ 64 = n * sizeof_chunk C" by simp
  show "length (malloc_chunks C junk n) = n"
    using lt sz(1) by (simp add: malloc_chunks_def Let_def m)
  show "\<forall>c \<in> set (malloc_chunks C junk n). length (data c) = C"
    by (auto simp: malloc_chunks_def Let_def uninit_def)
qed

lemma take_Suc_update:
  assumes "n < length xs"
  shows "take (Suc n) (xs[n := y]) = take n xs @ [y]"
  using assms by (simp add: take_Suc_conv_app_nth)

lemma power_two_ge:
  assumes "(n::nat) * 3 < 2 ^ k" "1 \<le> k"
  shows "Suc n * 3 < 2 * 2 ^ k"
proof (cases "k = 1")
  case True
  with assms show ?thesis by simp
next
  case False
  with assms(2) have "2 \<le> k" by simp
  then have "(2::nat) ^ 2 \<le> 2 ^ k" by (intro power_increasing) simp_all
  with assms(1) show ?thesis by simp
qed

lemma inv_small:
  assumes inv: "redolog_inv C s"
  shows "vec_count s < vec_cap s" "length (vec_chunks s) = vec_cap s" "vec_cap s \<le> 2 ^ 31"
    "Suc (vec_count s) * 3 < 2 ^ 31" "vec_count s * SPILL_FACTOR < ht_len s"
proof -
  from inv show c: "vec_count s < vec_cap s" "length (vec_chunks s) = vec_cap s"
    "vec_cap s \<le> 2 ^ 31" "vec_count s * SPILL_FACTOR < ht_len s"
    by (simp_all add: redolog_inv_def)
  from inv_len(4) [OF inv] c(4) show "Suc (vec_count s) * 3 < 2 ^ 31"
    by (simp add: SPILL_FACTOR_def)
qed

lemma reserve_unused:
  assumes inv: "redolog_inv C s" and ok: "chunksize_ok C"
    and pr: "probe s key (hash s key) = Some (Inr (Unused h))"
  shows "reserve C junk s key =
     (if ht_len (reserved C junk s key h) \<le> vec_count (reserved C junk s key h) * SPILL_FACTOR then
        (case rebuild (reserved C junk s key h) of
           None \<Rightarrow> None
         | Some (Inl e) \<Rightarrow> Some (Inl e)
         | Some (Inr s4) \<Rightarrow> Some (Inr (vec_count s, s4)))
      else Some (Inr (vec_count s, reserved C junk s key h)))"
proof -
  note sm = inv_small [OF inv]
  define s2 where "s2 = s\<lparr>ht_tbl := (ht_tbl s)[h := \<lparr>vVer = ht_ver s, cAddr = key, vIdx = vec_count s\<rparr>],
           vec_chunks := (vec_chunks s)
              [vec_count s := (vec_chunks s ! vec_count s)\<lparr>bAddr := key, vBytes := 0\<rparr>],
           vec_count := Suc (vec_count s)\<rparr>"
  have n: "vec_count s < length (vec_chunks s)" using sm(1,2) by simp
  have w1: "Suc (vec_count s) mod 18446744073709551616 = Suc (vec_count s)" using sm(4) by simp
  have w3: "(Suc (vec_count s) * SPILL_FACTOR) mod 18446744073709551616
              = Suc (vec_count s) * SPILL_FACTOR"
    using sm(4) by (simp add: SPILL_FACTOR_def)
  have f2: "vec_count s2 = Suc (vec_count s)" "vec_cap s2 = vec_cap s"
    "length (vec_chunks s2) = vec_cap s"
    using sm(2) by (simp_all add: s2_def)
  have step: "reserve C junk s key =
      (case (if vec_count s2 = vec_cap s2 then resize C junk s2 else Inr s2) of
         Inl e \<Rightarrow> Some (Inl e)
       | Inr s3 \<Rightarrow>
           if (vec_count s3 * SPILL_FACTOR) mod 2 ^ 64 \<ge> ht_len s3 then
             (case rebuild s3 of
                None \<Rightarrow> None
              | Some (Inl e) \<Rightarrow> Some (Inl e)
              | Some (Inr s4) \<Rightarrow> Some (Inr (vec_count s, s4)))
           else Some (Inr (vec_count s, s3)))"
    unfolding s2_def using pr n
    by (simp add: reserve_def Let_def w1 split del: if_split cong: if_cong sum.case_cong)
  have r: "(if vec_count s2 = vec_cap s2 then resize C junk s2 else Inr s2)
             = Inr (reserved C junk s key h)"
  proof (cases "vec_count s2 = vec_cap s2")
    case False
    then have "reserved C junk s key h = s2"
      unfolding s2_def by (simp add: reserved_def Let_def)
    with False show ?thesis by simp
  next
    case True
    then have c2: "2 * vec_cap s \<le> 2 ^ 31" using sm(4) f2 by simp
    then have w2: "(vec_cap s2 * 2) mod 2 ^ 64 = 2 * vec_cap s2" using f2 by simp
    have ml: "length (malloc_chunks C junk (2 * vec_cap s2)) = 2 * vec_cap s2"
      using malloc_chunks_ok(1) [OF ok c2, of junk] f2 by simp
    have rs: "resize C junk s2 = Inr (s2\<lparr>vec_cap := 2 * vec_cap s2,
                 vec_chunks := take (vec_count s2) (vec_chunks s2)
                                 @ drop (vec_count s2) (malloc_chunks C junk (2 * vec_cap s2))\<rparr>)"
      unfolding resize_def Let_def w2 ml using True f2 by simp
    have "reserved C junk s key h = s2\<lparr>vec_cap := 2 * vec_cap s2,
                 vec_chunks := take (vec_count s2) (vec_chunks s2)
                                 @ drop (vec_count s2) (malloc_chunks C junk (2 * vec_cap s2))\<rparr>"
      using True unfolding reserved_def Let_def s2_def [symmetric] by simp
    with rs True show ?thesis by simp
  qed
  have cnt: "vec_count (reserved C junk s key h) = Suc (vec_count s)"
    by (simp add: reserved_def Let_def)
  have w3r: "(vec_count (reserved C junk s key h) * SPILL_FACTOR) mod 2 ^ 64
               = vec_count (reserved C junk s key h) * SPILL_FACTOR"
    using w3 by (simp add: cnt)
  show ?thesis
    unfolding step r by (simp only: sum.case w3r)
qed

lemma reserved_fields:
  assumes inv: "redolog_inv C s" and ok: "chunksize_ok C"
  shows "ht_tbl (reserved C junk s key h)
           = (ht_tbl s)[h := \<lparr>vVer = ht_ver s, cAddr = key, vIdx = vec_count s\<rparr>]"
    "ht_len (reserved C junk s key h) = ht_len s" "ht_ver (reserved C junk s key h) = ht_ver s"
    "ht_shift (reserved C junk s key h) = ht_shift s"
    "vec_count (reserved C junk s key h) = Suc (vec_count s)"
    "vec_count (reserved C junk s key h) < vec_cap (reserved C junk s key h)"
    "length (vec_chunks (reserved C junk s key h)) = vec_cap (reserved C junk s key h)"
    "take (Suc (vec_count s)) (vec_chunks (reserved C junk s key h))
       = take (vec_count s) (vec_chunks s)
           @ [(vec_chunks s ! vec_count s)\<lparr>bAddr := key, vBytes := 0\<rparr>]"
    "\<forall>c \<in> set (vec_chunks (reserved C junk s key h)). length (data c) = C"
    "vec_cap (reserved C junk s key h) \<le> 2 ^ 31"
proof -
  let ?c0 = "(vec_chunks s ! vec_count s)\<lparr>bAddr := key, vBytes := 0\<rparr>"
  let ?ch2 = "(vec_chunks s)[vec_count s := ?c0]"
  let ?r = "reserved C junk s key h"
  note sm = inv_small [OF inv]
  from inv have dl: "\<forall>c \<in> set (vec_chunks s). length (data c) = C"
    by (simp add: redolog_inv_def)
  have n: "vec_count s < length (vec_chunks s)" using sm(1,2) by simp
  have tk: "take (Suc (vec_count s)) ?ch2 = take (vec_count s) (vec_chunks s) @ [?c0]"
    by (rule take_Suc_update [OF n])
  have c0: "length (data ?c0) = C" using dl n by simp
  have dl2: "\<forall>c \<in> set ?ch2. length (data c) = C"
  proof
    fix c assume "c \<in> set ?ch2"
    then have "c = ?c0 \<or> c \<in> set (vec_chunks s)"
      using set_update_subset_insert [of "vec_chunks s" "vec_count s" ?c0] by blast
    with c0 dl show "length (data c) = C" by blast
  qed
  show "ht_tbl ?r = (ht_tbl s)[h := \<lparr>vVer = ht_ver s, cAddr = key, vIdx = vec_count s\<rparr>]"
    "ht_len ?r = ht_len s" "ht_ver ?r = ht_ver s" "ht_shift ?r = ht_shift s"
    "vec_count ?r = Suc (vec_count s)"
    by (simp_all add: reserved_def Let_def)
  have all: "vec_count ?r < vec_cap ?r \<and> length (vec_chunks ?r) = vec_cap ?r
      \<and> take (Suc (vec_count s)) (vec_chunks ?r) = take (vec_count s) (vec_chunks s) @ [?c0]
      \<and> (\<forall>c \<in> set (vec_chunks ?r). length (data c) = C) \<and> vec_cap ?r \<le> 2 ^ 31"
  proof (cases "Suc (vec_count s) = vec_cap s")
    case False
    then have r: "?r = s\<lparr>ht_tbl := (ht_tbl s)[h := \<lparr>vVer = ht_ver s, cAddr = key, vIdx = vec_count s\<rparr>],
                 vec_chunks := ?ch2, vec_count := Suc (vec_count s)\<rparr>"
      by (simp add: reserved_def Let_def)
    show ?thesis
      unfolding r using False sm(1-3) tk dl2 by simp
  next
    case True
    have c2: "2 * vec_cap s \<le> 2 ^ 31" using sm(4) True by simp
    note ml = malloc_chunks_ok [OF ok c2, of junk]
    let ?blk = "malloc_chunks C junk (2 * vec_cap s)"
    have r: "?r = s\<lparr>ht_tbl := (ht_tbl s)[h := \<lparr>vVer = ht_ver s, cAddr = key, vIdx = vec_count s\<rparr>],
                 vec_chunks := take (Suc (vec_count s)) ?ch2 @ drop (Suc (vec_count s)) ?blk,
                 vec_count := Suc (vec_count s), vec_cap := 2 * vec_cap s\<rparr>"
      using True by (simp add: reserved_def Let_def)
    have l: "length (take (Suc (vec_count s)) ?ch2) = Suc (vec_count s)"
      using n by simp
    have dl3: "\<forall>c \<in> set (take (Suc (vec_count s)) ?ch2 @ drop (Suc (vec_count s)) ?blk).
                 length (data c) = C"
      using dl2 ml(2) by (auto dest: in_set_takeD in_set_dropD)
    have t2: "take (Suc (vec_count s)) (take (Suc (vec_count s)) ?ch2 @ drop (Suc (vec_count s)) ?blk)
               = take (vec_count s) (vec_chunks s) @ [?c0]"
      using l tk by simp
    have l2: "length (take (Suc (vec_count s)) ?ch2 @ drop (Suc (vec_count s)) ?blk)
                = 2 * vec_cap s"
      using l ml(1) True by simp
    show ?thesis
      unfolding r using True c2 t2 l2 dl3 by simp
  qed
then show "vec_count ?r < vec_cap ?r" "length (vec_chunks ?r) = vec_cap ?r"
    "take (Suc (vec_count s)) (vec_chunks ?r) = take (vec_count s) (vec_chunks s) @ [?c0]"
    "\<forall>c \<in> set (vec_chunks ?r). length (data c) = C" "vec_cap ?r \<le> 2 ^ 31"
    by blast+
qed

lemma reserved_inv_parts:
  assumes inv: "redolog_inv C s" and cs: "chunksize_ok C" and al: "unat key mod C = 0"
    and h: "h < ht_len s" "\<not> slot_valid (ht_tbl s) (ht_ver s) h"
    and path: "\<forall>k < (h + ht_len s - hash s key) mod ht_len s.
                  slot_valid (ht_tbl s) (ht_ver s) ((hash s key + k) mod ht_len s)"
    and none: "\<forall>i<vec_count s. bAddr (vec_chunks s ! i) \<noteq> key"
  shows "length (ht_tbl (reserved C junk s key h)) = ht_len s"
    "\<forall>e \<in> set (ht_tbl (reserved C junk s key h)). vVer e \<le> ht_ver s"
    "\<forall>c \<in> set (vec_chunks (reserved C junk s key h)). length (data c) = C"
    "chunks_wf C (reserved C junk s key h)"
    "index_ok (ht_tbl (reserved C junk s key h)) (ht_ver s) (ht_shift s)
       (vec_chunks (reserved C junk s key h)) (Suc (vec_count s))"
    "\<forall>i<vec_count s. vec_chunks (reserved C junk s key h) ! i = vec_chunks s ! i"
    "bAddr (vec_chunks (reserved C junk s key h) ! vec_count s) = key"
    "vBytes (vec_chunks (reserved C junk s key h) ! vec_count s) = 0"
proof -
  let ?r = "reserved C junk s key h"
  let ?c0 = "(vec_chunks s ! vec_count s)\<lparr>bAddr := key, vBytes := 0\<rparr>"
  from inv have cap: "vec_count s < vec_cap s" "length (vec_chunks s) = vec_cap s"
    and dl: "\<forall>c \<in> set (vec_chunks s). length (data c) = C"
    and le: "\<forall>e \<in> set (ht_tbl s). vVer e \<le> ht_ver s"
    and wf: "chunks_wf C s"
    and ok: "index_ok (ht_tbl s) (ht_ver s) (ht_shift s) (vec_chunks s) (vec_count s)"
    by (simp_all add: redolog_inv_def)
  note f = reserved_fields [OF inv cs, of junk key h]
  note len = inv_len(1) [OF inv]
  have n: "vec_count s < length (vec_chunks s)" using cap by simp
  show "length (ht_tbl ?r) = ht_len s" by (simp add: f(1) len)
  show "\<forall>e \<in> set (ht_tbl ?r). vVer e \<le> ht_ver s"
    unfolding f(1) by (rule set_update_le [OF le])
  have c0: "length (data ?c0) = C" using dl n by simp
  show dl': "\<forall>c \<in> set (vec_chunks ?r). length (data c) = C"
    by (rule f(9))
  have nth: "take (Suc (vec_count s)) (vec_chunks ?r) ! i = vec_chunks ?r ! i"
    if "i < Suc (vec_count s)" for i
    using that by simp
  show same: "\<forall>i<vec_count s. vec_chunks ?r ! i = vec_chunks s ! i"
  proof (intro allI impI)
    fix i assume i: "i < vec_count s"
    then have "vec_chunks ?r ! i = take (Suc (vec_count s)) (vec_chunks ?r) ! i" by simp
    also have "\<dots> = (take (vec_count s) (vec_chunks s) @ [?c0]) ! i" by (simp only: f(8))
    also have "\<dots> = vec_chunks s ! i" using i n by (simp add: nth_append)
    finally show "vec_chunks ?r ! i = vec_chunks s ! i" .
  qed
  have at: "vec_chunks ?r ! vec_count s = ?c0"
  proof -
    have "vec_chunks ?r ! vec_count s = take (Suc (vec_count s)) (vec_chunks ?r) ! vec_count s"
      by simp
    also have "\<dots> = (take (vec_count s) (vec_chunks s) @ [?c0]) ! vec_count s"
      by (simp only: f(8))
    also have "\<dots> = ?c0" using n by (simp add: nth_append)
    finally show ?thesis .
  qed
  from at show "bAddr (vec_chunks ?r ! vec_count s) = key"
    "vBytes (vec_chunks ?r ! vec_count s) = 0" by simp_all
  show "chunks_wf C ?r"
  proof -
    from wf have old: "\<forall>c \<in> set (take (vec_count s) (vec_chunks s)).
            length (data c) = C \<and> unat (bAddr c) mod C = 0"
      and dist: "distinct (map bAddr (take (vec_count s) (vec_chunks s)))"
      by (simp_all add: chunks_wf_def)
    have notin: "key \<notin> set (map bAddr (take (vec_count s) (vec_chunks s)))"
    proof
      assume "key \<in> set (map bAddr (take (vec_count s) (vec_chunks s)))"
      then obtain c where c: "c \<in> set (take (vec_count s) (vec_chunks s))" "bAddr c = key"
        by auto
      then obtain i where "i < length (take (vec_count s) (vec_chunks s))"
        "take (vec_count s) (vec_chunks s) ! i = c"
        by (auto simp: in_set_conv_nth)
      with c(2) n have "i < vec_count s" "bAddr (vec_chunks s ! i) = key" by simp_all
      with none show False by blast
    qed
    have "vec_count ?r \<le> length (vec_chunks ?r)" using f(6,7) by simp
    moreover have "\<forall>c \<in> set (take (vec_count ?r) (vec_chunks ?r)).
            length (data c) = C \<and> unat (bAddr c) mod C = 0"
      unfolding f(5) f(8) using old c0 al by auto
    moreover have "distinct (map bAddr (take (vec_count ?r) (vec_chunks ?r)))"
      unfolding f(5) f(8) using dist notin by simp
    ultimately show ?thesis by (simp add: chunks_wf_def)
  qed
  show "index_ok (ht_tbl ?r) (ht_ver s) (ht_shift s) (vec_chunks ?r) (Suc (vec_count s))"
  proof -
    have hl: "h < length (ht_tbl s)" using h(1) len by simp
    have p: "\<forall>k < (h + length (ht_tbl s) - hashv (ht_shift s) key) mod length (ht_tbl s).
                 slot_valid (ht_tbl s) (ht_ver s)
                   ((hashv (ht_shift s) key + k) mod length (ht_tbl s))"
      using path by (simp add: len hash_hashv)
    have k: "bAddr (vec_chunks ?r ! vec_count s) = key" using at by simp
    have sm: "\<forall>i<vec_count s. bAddr (vec_chunks ?r ! i) = bAddr (vec_chunks s ! i)"
      using same by simp
    from index_insert [OF ok hl h(2) p k sm] show ?thesis by (simp only: f(1))
  qed
qed

text \<open>\<^verbatim>\<open>reserve\<close> ends; it returns the chunk of the key, adding one if there is none.\<close>

lemma reserve_ok:
  assumes inv: "redolog_inv C s" and cs: "chunksize_ok C" and al: "unat key mod C = 0"
  shows "(\<exists>i<vec_count s. bAddr (vec_chunks s ! i) = key
            \<and> reserve C junk s key = Some (Inr (i, s)))
       \<or> ((\<forall>i<vec_count s. bAddr (vec_chunks s ! i) \<noteq> key)
          \<and> ((\<exists>e. reserve C junk s key = Some (Inl e))
             \<or> (\<exists>s'. reserve C junk s key = Some (Inr (vec_count s, s'))
                   \<and> redolog_inv C s' \<and> vec_count s' = Suc (vec_count s)
                   \<and> (\<forall>i<vec_count s. vec_chunks s' ! i = vec_chunks s ! i)
                   \<and> bAddr (vec_chunks s' ! vec_count s) = key
                   \<and> vBytes (vec_chunks s' ! vec_count s) = 0)))"
proof -
  from inv_probe [OF inv, of key] show ?thesis
  proof (elim disjE exE conjE)
    fix i assume "i < vec_count s" "bAddr (vec_chunks s ! i) = key"
      "probe s key (hash s key) = Some (Inr (Found i))"
    then show ?thesis by (auto simp: reserve_def)
  next
    fix h assume h: "h < ht_len s" "\<not> slot_valid (ht_tbl s) (ht_ver s) h"
      and path: "\<forall>k < (h + ht_len s - hash s key) mod ht_len s.
                  slot_valid (ht_tbl s) (ht_ver s) ((hash s key + k) mod ht_len s)"
      and none: "\<forall>i<vec_count s. bAddr (vec_chunks s ! i) \<noteq> key"
      and pr: "probe s key (hash s key) = Some (Inr (Unused h))"
    let ?r = "reserved C junk s key h"
    from inv have cap: "vec_count s < vec_cap s" "length (vec_chunks s) = vec_cap s"
      and sh: "2 \<le> ht_shift s" "ht_shift s \<le> 31" and len: "ht_len s = 2 ^ (32 - ht_shift s)"
      and ver: "ht_ver s \<noteq> 0" and c3: "vec_count s * SPILL_FACTOR < ht_len s"
      by (simp_all add: redolog_inv_def)
    note f = reserved_fields [OF inv cs, of junk key h]
    note p = reserved_inv_parts [OF inv cs al h path none, of junk]
    have n: "vec_count s < length (vec_chunks s)" using cap by simp
    note unf = reserve_unused [OF inv cs pr, of junk]
    show ?thesis
    proof (cases "ht_len ?r \<le> vec_count ?r * SPILL_FACTOR")
      case False
      then have res: "reserve C junk s key = Some (Inr (vec_count s, ?r))"
        using unf by simp
      have "redolog_inv C ?r"
        unfolding redolog_inv_def
        using False sh len ver f(2-7,10) p(1-5) by simp
      with res f(5) p(6-8) none show ?thesis by blast
    next
      case True
      have c4: "vec_count ?r * 3 < 2 * 2 ^ (32 - ht_shift ?r)"
      proof -
        have "vec_count s * 3 < 2 ^ (32 - ht_shift s)"
          using c3 len by (simp add: SPILL_FACTOR_def)
        moreover have "1 \<le> 32 - ht_shift s" using sh by simp
        ultimately have "Suc (vec_count s) * 3 < 2 * 2 ^ (32 - ht_shift s)"
          by (rule power_two_ge)
        then show ?thesis by (simp only: f(4,5))
      qed
      have v: "ht_ver ?r \<noteq> 0" "2 \<le> ht_shift ?r" "ht_shift ?r \<le> 31"
        "vec_count ?r \<le> length (vec_chunks ?r)"
        using ver sh f(3,4,6,7) by simp_all
      from rebuild_ok [OF v c4] show ?thesis
      proof (elim disjE exE conjE)
        fix e assume "rebuild ?r = Some (Inl e)"
        with unf True have "reserve C junk s key = Some (Inl e)" by simp
        with none show ?thesis by blast
      next
        fix t
        let ?s4 = "?r\<lparr>ht_shift := ht_shift ?r - 1, ht_len := 2 ^ (33 - ht_shift ?r),
                      ht_tbl := t\<rparr>"
        assume rb: "rebuild ?r = Some (Inr ?s4)" and s3: "3 \<le> ht_shift ?r"
          and lt: "length t = 2 ^ (33 - ht_shift ?r)"
          and ok: "index_ok t (ht_ver ?r) (ht_shift ?r - 1) (vec_chunks ?r) (vec_count ?r)"
          and le: "\<forall>e \<in> set t. vVer e \<le> ht_ver ?r"
        from unf True rb have res: "reserve C junk s key = Some (Inr (vec_count s, ?s4))" by simp
        have e: "32 - (ht_shift s - 1) = 33 - ht_shift s" using sh by simp
        have two: "2 * (2::nat) ^ (32 - ht_shift s) = 2 ^ (33 - ht_shift s)"
        proof -
          have "33 - ht_shift s = Suc (32 - ht_shift s)" using sh by simp
          then show ?thesis by simp
        qed
        have c5: "vec_count ?s4 * SPILL_FACTOR < ht_len ?s4"
          using c4 two by (simp add: f(4,5) SPILL_FACTOR_def)
        have wf4: "chunks_wf C ?s4" using p(4) by (simp add: chunks_wf_def)
        have sh4: "2 \<le> ht_shift s - Suc 0" "ht_shift s - Suc 0 \<le> 31"
          using s3 sh by (simp_all add: f(4))
        have "redolog_inv C ?s4"
          unfolding redolog_inv_def
          using c5 wf4 s3 sh sh4 ver lt ok le e f(3-7,10) p(3) by simp
        moreover have "vec_count ?s4 = Suc (vec_count s)" by (simp add: f(5))
        moreover have "\<forall>i<vec_count s. vec_chunks ?s4 ! i = vec_chunks s ! i"
          using p(6) by simp
        moreover have "bAddr (vec_chunks ?s4 ! vec_count s) = key"
          "vBytes (vec_chunks ?s4 ! vec_count s) = 0"
          using p(7,8) by simp_all
        ultimately show ?thesis using res none by blast
      qed
    qed
  qed
qed

lemma reserve_total:
  assumes "redolog_inv C s" "chunksize_ok C" "unat key mod C = 0"
  shows "\<exists>r. reserve C junk s key = Some r"
  using reserve_ok [OF assms] by blast

lemma word_inc_above:
  fixes v e :: u64
  assumes "v + 1 \<noteq> 0" "e \<le> v"
  shows "e \<le> v + 1 \<and> e \<noteq> v + 1"
  using assms
  by (metis add_neg_numeral_special(8) inc_less_eq_self_iff_eq nle_le word_le_plus_either)

lemma index_ok_none_valid:
  assumes "\<forall>h<length tbl. \<not> slot_valid tbl ver h"
  shows "index_ok tbl ver shift chunks 0"
  using assms by (simp add: index_ok_def)

text \<open>\<^verbatim>\<open>clear\<close> keeps the invariant: no entry carries the new version.\<close>

lemma clear_inv:
  assumes inv: "redolog_inv C s"
  shows "redolog_inv C (clear s)" "vec_count (clear s) = 0"
proof -
  from inv have len: "length (ht_tbl s) = ht_len s"
    and sh: "2 \<le> ht_shift s" "ht_shift s \<le> 31" "ht_len s = 2 ^ (32 - ht_shift s)"
    and le: "\<forall>e \<in> set (ht_tbl s). vVer e \<le> ht_ver s"
    and cap: "vec_count s < vec_cap s" "length (vec_chunks s) = vec_cap s"
      "vec_cap s \<le> 2 ^ 31"
    and dl: "\<forall>c \<in> set (vec_chunks s). length (data c) = C"
    by (simp_all add: redolog_inv_def)
  have L0: "0 < ht_len s" using sh(3) by simp
  have cap0: "0 < vec_cap s" using cap(1) by simp
  show "vec_count (clear s) = 0" by (simp add: clear_def Let_def reset_internal_def)
  show "redolog_inv C (clear s)"
  proof (cases "ht_ver s + 1 = 0")
    case True
    then have c: "clear s = s\<lparr>vec_count := 0, ht_tbl := replicate (ht_len s) index_t_init,
                               ht_ver := 1\<rparr>"
      using len by (simp add: clear_def Let_def reset_internal_def)
    have ok: "index_ok (replicate (ht_len s) index_t_init) 1 (ht_shift s) (vec_chunks s) 0"
      by (rule index_ok_empty) simp
    show ?thesis
      unfolding c redolog_inv_def
      using sh L0 cap0 cap(2,3) dl ok
      by (simp add: chunks_wf_def index_t_init_def)
  next
    case False
    then have c: "clear s = s\<lparr>vec_count := 0, ht_ver := ht_ver s + 1\<rparr>"
      by (simp add: clear_def Let_def)
    have le': "\<forall>e \<in> set (ht_tbl s). vVer e \<le> ht_ver s + 1 \<and> vVer e \<noteq> ht_ver s + 1"
      using word_inc_above [OF False] le by blast
    have "\<forall>h<length (ht_tbl s). \<not> slot_valid (ht_tbl s) (ht_ver s + 1) h"
      using le' by (simp add: slot_valid_def)
    then have ok: "index_ok (ht_tbl s) (ht_ver s + 1) (ht_shift s) (vec_chunks s) 0"
      by (rule index_ok_none_valid)
    show ?thesis
      unfolding c redolog_inv_def
      using sh L0 cap0 cap(2,3) dl ok le' len False
      by (simp add: chunks_wf_def)
  qed
qed

text \<open>The constructor establishes the invariant, for a positive initial capacity.\<close>

lemma doubleIndexLength_sized:
  assumes "index_sized s" "doubleIndexLength s = Inr s1"
  shows "index_sized s1 \<and> s1 = s\<lparr>ht_shift := ht_shift s1, ht_len := ht_len s1\<rparr>"
proof -
  from assms(1) consider "ht_shift s = 32" | "ht_shift s = 1" | "ht_shift s = 2"
    | "3 \<le> ht_shift s" "ht_shift s \<le> 31"
    unfolding index_sized_def by fastforce
  then show ?thesis
  proof cases
    case 1
    with assms(2) show ?thesis
      by (auto simp: doubleIndexLength_def shl_int_1_def index_sized_def Let_def)
  next
    case 2
    with assms(2) show ?thesis
      by (auto simp: doubleIndexLength_def shl_int_1_def index_sized_def Let_def)
  next
    case 3
    with assms(2) show ?thesis
      by (auto simp: doubleIndexLength_def shl_int_1_def index_sized_def Let_def)
  next
    case 4
    then have e: "32 - (ht_shift s - 1) = 33 - ht_shift s" and lt: "33 - ht_shift s < 31"
      by simp_all
    from 4 have e2: "32 - (ht_shift s - Suc 0) = 33 - ht_shift s" by simp
    have sl: "shl_int_1 (33 - ht_shift s) = Inr (2 ^ (33 - ht_shift s))"
      using lt by (simp add: shl_int_1_def)
    have "doubleIndexLength s
            = Inr (s\<lparr>ht_shift := ht_shift s - 1, ht_len := 2 ^ (33 - ht_shift s)\<rparr>)"
      unfolding doubleIndexLength_def Let_def e sl using 4 by simp
    with assms(2) have "s1 = s\<lparr>ht_shift := ht_shift s - 1, ht_len := 2 ^ (33 - ht_shift s)\<rparr>"
      by simp
    moreover have "2 \<le> ht_shift s - Suc 0" "ht_shift s - Suc 0 \<le> 31" using 4 by simp_all
    ultimately show ?thesis using e2 by (simp add: index_sized_def)
  qed
qed

lemma init_loop_sized:
  "index_sized s \<Longrightarrow> init_loop cap s = Inr s' \<Longrightarrow>
     index_sized s' \<and> \<not> ht_len s' < (SPILL_FACTOR * cap) mod 2 ^ 64
     \<and> s' = s\<lparr>ht_shift := ht_shift s', ht_len := ht_len s'\<rparr>"
proof (induction cap s rule: init_loop.induct)
  case (1 cap s)
  show ?case
  proof (cases "ht_len s < (SPILL_FACTOR * cap) mod 2 ^ 64")
    case False
    with "1.prems" have "s' = s" by (simp add: init_loop.simps)
    with False "1.prems"(1) show ?thesis by simp
  next
    case True
    with "1.prems"(2) obtain s1 where d: "doubleIndexLength s = Inr s1"
      and r: "init_loop cap s1 = Inr s'"
      by (subst (asm) init_loop.simps) (auto split: sum.splits)
    from doubleIndexLength_sized [OF "1.prems"(1) d]
    have sz: "index_sized s1" and eq: "s1 = s\<lparr>ht_shift := ht_shift s1, ht_len := ht_len s1\<rparr>"
      by simp_all
    from "1.IH" [OF True d sz r]
    have "index_sized s'" "\<not> ht_len s' < (SPILL_FACTOR * cap) mod 2 ^ 64"
      "s' = s1\<lparr>ht_shift := ht_shift s', ht_len := ht_len s'\<rparr>"
      by simp_all
    moreover have "s' = s\<lparr>ht_shift := ht_shift s', ht_len := ht_len s'\<rparr>"
    proof -
      obtain a b where s1: "s1 = s\<lparr>ht_shift := a, ht_len := b\<rparr>" using eq by blast
      obtain c d where s': "s' = s1\<lparr>ht_shift := c, ht_len := d\<rparr>"
        using calculation(3) by blast
      show ?thesis by (simp add: s' s1)
    qed
    ultimately show ?thesis by blast
  qed
qed

lemma init_inv:
  assumes "redolog_init C junk cap = Inr s" "0 < cap" "SPILL_FACTOR * cap < 2 ^ 64"
    and cs: "chunksize_ok C"
  shows "redolog_inv C s" "vec_count s = 0" "vec_cap s = cap"
proof -
  let ?s0 = "\<lparr>ht_tbl = [], ht_len = 0, ht_ver = 1, ht_shift = 32,
              vec_chunks = [], vec_cap = cap, vec_count = 0\<rparr>"
  from assms(1) obtain s1 t where l: "init_loop cap ?s0 = Inr s1"
    and n: "new_index_tbl (ht_len s1) = Inr t"
    and s: "s = s1\<lparr>ht_tbl := t, vec_chunks := malloc_chunks C junk (vec_cap s1)\<rparr>"
    by (auto simp: redolog_init_def split: sum.splits)
  have sz0: "index_sized ?s0" by (simp add: index_sized_def)
  from init_loop_sized [OF sz0 l]
  have sz: "index_sized s1" and ge: "\<not> ht_len s1 < (SPILL_FACTOR * cap) mod 2 ^ 64"
    and eq: "s1 = ?s0\<lparr>ht_shift := ht_shift s1, ht_len := ht_len s1\<rparr>"
    by simp_all
  from assms(3) have "(SPILL_FACTOR * cap) mod 2 ^ 64 = SPILL_FACTOR * cap" by simp
  with ge have ge3: "3 * cap \<le> ht_len s1" by (simp add: SPILL_FACTOR_def)
  from n have small: "ht_len s1 * 24 < 2 ^ 63" and t: "t = replicate (ht_len s1) index_t_init"
    by (auto simp: new_index_tbl_def split: if_splits)
  from ge3 assms(2) have pos: "0 < ht_len s1" by simp
  from sz pos small have sh: "2 \<le> ht_shift s1" "ht_shift s1 \<le> 31"
    "ht_len s1 = 2 ^ (32 - ht_shift s1)"
    unfolding index_sized_def by auto
  have "(2::nat) ^ (32 - ht_shift s1) \<le> 2 ^ 30"
    using sh(1) by (intro power_increasing) simp_all
  with sh(3) ge3 have c31: "cap \<le> 2 ^ 31" by simp
  have f: "ht_ver s1 = 1" "vec_cap s1 = cap" "vec_count s1 = 0"
    by (subst eq, simp)+
  note ml = malloc_chunks_ok [OF cs c31, of junk]
  have ok: "index_ok t 1 (ht_shift s1) (malloc_chunks C junk cap) 0"
    unfolding t by (rule index_ok_empty) simp
  show "vec_count s = 0" "vec_cap s = cap" by (simp_all add: s f)
  show "redolog_inv C s"
    unfolding redolog_inv_def s
    using sh pos assms(2) ok f ml c31
    by (simp add: chunks_wf_def t index_t_init_def)
qed

section \<open>The stores of write-back\<close>

lemma shifted_mask_bits:
  fixes v :: u64
  assumes "k \<le> 32"
  shows "bit ((ucast (drop_bit b v) :: u32) AND mask k) i \<longleftrightarrow> i < k \<and> bit v (b + i)"
  using assms
  by (auto simp: bit_ucast_iff bit_and_iff bit_mask_iff bit_drop_bit_eq dest: bit_imp_le_length)

lemma shifted_mask_all:
  fixes v :: u64
  assumes "k \<le> 32"
  shows "((ucast (drop_bit b v) :: u32) AND mask k = mask k) \<longleftrightarrow> allv v b k"
proof
  assume eq: "(ucast (drop_bit b v) :: u32) AND mask k = mask k"
  show "allv v b k"
    unfolding allv_def
  proof (intro allI impI)
    fix i assume "i < k"
    then have "bit (mask k :: u32) i" using assms by (simp add: bit_mask_iff)
    then have "bit ((ucast (drop_bit b v) :: u32) AND mask k) i" by (simp only: eq)
    then show "bit v (b + i)" by (simp only: shifted_mask_bits [OF assms])
  qed
next
  assume "allv v b k"
  then show "(ucast (drop_bit b v) :: u32) AND mask k = mask k"
    by (auto simp: bit_eq_iff shifted_mask_bits [OF assms] bit_mask_iff allv_def)
qed

lemma shifted_mask_none:
  fixes v :: u64
  assumes "k \<le> 32"
  shows "((ucast (drop_bit b v) :: u32) AND mask k = 0) \<longleftrightarrow> nonev v b k"
  using assms
  by (auto simp: bit_eq_iff shifted_mask_bits nonev_def)

lemma mask_consts: "(0xFF :: u32) = mask 8" "(0xF :: u32) = mask 4" "(0x3 :: u32) = mask 2"
  "(0x1 :: u32) = mask 1"
  by (simp_all add: mask_eq_exp_minus_1)

lemma wb_chunk_step:
  assumes "b < C"
  shows "wb_chunk C c b =
     (if allv (vBytes c) b 8 \<and> b mod 8 = 0 then chunk_store c b 8 # wb_chunk C c (b + 8)
      else if nonev (vBytes c) b 8 then wb_chunk C c (b + 8)
      else if allv (vBytes c) b 4 \<and> b mod 4 = 0 then chunk_store c b 4 # wb_chunk C c (b + 4)
      else if nonev (vBytes c) b 4 then wb_chunk C c (b + 4)
      else if allv (vBytes c) b 2 \<and> b mod 2 = 0 then chunk_store c b 2 # wb_chunk C c (b + 2)
      else if nonev (vBytes c) b 2 then wb_chunk C c (b + 2)
      else if allv (vBytes c) b 1 then chunk_store c b 1 # wb_chunk C c (b + 1)
      else wb_chunk C c (b + 1))"
  apply (subst wb_chunk.simps)
  apply (simp only: mask_consts shifted_mask_all shifted_mask_none Let_def assms if_True
          chunk_store_def)
  done

lemma allv_mono: "allv v b n \<Longrightarrow> k \<le> n \<Longrightarrow> allv v b k"
  by (simp add: allv_def)

lemma allv_bit: "allv v b n \<Longrightarrow> i < n \<Longrightarrow> bit v (b + i)"
  by (simp add: allv_def)

lemma nonev_bit: "nonev v b n \<Longrightarrow> b \<le> j \<Longrightarrow> j < b + n \<Longrightarrow> \<not> bit v j"
proof -
  assume a: "nonev v b n" "b \<le> j" "j < b + n"
  then have "j - b < n" by simp
  with a(1) have "\<not> bit v (b + (j - b))" unfolding nonev_def by blast
  with a(2) show ?thesis by simp
qed

text \<open>One iteration emits the largest aligned, fully valid block, or skips invalid bytes.\<close>

lemma wb_chunk_cases:
  assumes "b < C"
  shows "(\<exists>n. largest_at (vBytes c) b n
             \<and> wb_chunk C c b = chunk_store c b n # wb_chunk C c (b + n))
       \<or> (\<exists>n. 0 < n \<and> nonev (vBytes c) b n \<and> wb_chunk C c b = wb_chunk C c (b + n))"
proof -
  let ?v = "vBytes c"
  have not1: "\<not> allv ?v b 1 \<Longrightarrow> nonev ?v b 1"
    by (simp add: allv_def nonev_def)
  consider
      (s8) "allv ?v b 8 \<and> b mod 8 = 0"
    | (k8) "\<not> (allv ?v b 8 \<and> b mod 8 = 0)" "nonev ?v b 8"
    | (s4) "\<not> (allv ?v b 8 \<and> b mod 8 = 0)" "\<not> nonev ?v b 8" "allv ?v b 4 \<and> b mod 4 = 0"
    | (k4) "\<not> (allv ?v b 8 \<and> b mod 8 = 0)" "\<not> nonev ?v b 8" "\<not> (allv ?v b 4 \<and> b mod 4 = 0)"
           "nonev ?v b 4"
    | (s2) "\<not> (allv ?v b 8 \<and> b mod 8 = 0)" "\<not> nonev ?v b 8" "\<not> (allv ?v b 4 \<and> b mod 4 = 0)"
           "\<not> nonev ?v b 4" "allv ?v b 2 \<and> b mod 2 = 0"
    | (k2) "\<not> (allv ?v b 8 \<and> b mod 8 = 0)" "\<not> nonev ?v b 8" "\<not> (allv ?v b 4 \<and> b mod 4 = 0)"
           "\<not> nonev ?v b 4" "\<not> (allv ?v b 2 \<and> b mod 2 = 0)" "nonev ?v b 2"
    | (s1) "\<not> (allv ?v b 8 \<and> b mod 8 = 0)" "\<not> nonev ?v b 8" "\<not> (allv ?v b 4 \<and> b mod 4 = 0)"
           "\<not> nonev ?v b 4" "\<not> (allv ?v b 2 \<and> b mod 2 = 0)" "\<not> nonev ?v b 2" "allv ?v b 1"
    | (k1) "\<not> (allv ?v b 8 \<and> b mod 8 = 0)" "\<not> nonev ?v b 8" "\<not> (allv ?v b 4 \<and> b mod 4 = 0)"
           "\<not> nonev ?v b 4" "\<not> (allv ?v b 2 \<and> b mod 2 = 0)" "\<not> nonev ?v b 2" "\<not> allv ?v b 1"
    by blast
  then show ?thesis
  proof cases
    case s8
    then have "largest_at ?v b 8" by (simp add: largest_at_def)
    moreover have "wb_chunk C c b = chunk_store c b 8 # wb_chunk C c (b + 8)"
      using s8 by (auto simp add: wb_chunk_step [OF assms])
    ultimately show ?thesis by blast
  next
    case k8
    then have "wb_chunk C c b = wb_chunk C c (b + 8)"
      by (auto simp add: wb_chunk_step [OF assms])
    with k8 show ?thesis by (intro disjI2 exI [of _ 8]) simp
  next
    case s4
    then have "largest_at ?v b 4" by (auto simp: largest_at_def)
    moreover have "wb_chunk C c b = chunk_store c b 4 # wb_chunk C c (b + 4)"
      using s4 by (auto simp add: wb_chunk_step [OF assms])
    ultimately show ?thesis by blast
  next
    case k4
    then have "wb_chunk C c b = wb_chunk C c (b + 4)"
      by (auto simp add: wb_chunk_step [OF assms])
    with k4 show ?thesis by (intro disjI2 exI [of _ 4]) simp
  next
    case s2
    then have "largest_at ?v b 2" by (auto simp: largest_at_def)
    moreover have "wb_chunk C c b = chunk_store c b 2 # wb_chunk C c (b + 2)"
      using s2 by (auto simp add: wb_chunk_step [OF assms])
    ultimately show ?thesis by blast
  next
    case k2
    then have "wb_chunk C c b = wb_chunk C c (b + 2)"
      by (auto simp add: wb_chunk_step [OF assms])
    with k2 show ?thesis by (intro disjI2 exI [of _ 2]) simp
  next
    case s1
    then have "largest_at ?v b 1" by (auto simp: largest_at_def)
    moreover have "wb_chunk C c b = chunk_store c b 1 # wb_chunk C c (b + 1)"
      using s1 by (auto simp add: wb_chunk_step [OF assms])
    ultimately show ?thesis by blast
  next
    case k1
    then have "wb_chunk C c b = wb_chunk C c (b + 1)"
      by (auto simp add: wb_chunk_step [OF assms])
    moreover have "nonev ?v b 1" using k1 not1 by blast
    ultimately show ?thesis by (intro disjI2 exI [of _ 1]) simp
  qed
qed

lemma wb_chunk_done: "\<not> b < C \<Longrightarrow> wb_chunk C c b = []"
  by (subst wb_chunk.simps) simp

text \<open>Every store of a chunk's loop is such a block, at an offset the loop visited.\<close>

lemma wb_chunk_stores:
  "st \<in> set (wb_chunk C c b) \<Longrightarrow>
     \<exists>off n. st = chunk_store c off n \<and> b \<le> off \<and> off < C \<and> largest_at (vBytes c) off n"
proof (induction "C - b" arbitrary: b rule: less_induct)
  case less
  show ?case
  proof (cases "b < C")
    case False
    with less.prems show ?thesis by (simp add: wb_chunk_done)
  next
    case True
    from wb_chunk_cases [OF True, of c] show ?thesis
    proof (elim disjE exE conjE)
      fix n assume n: "largest_at (vBytes c) b n"
        and eq: "wb_chunk C c b = chunk_store c b n # wb_chunk C c (b + n)"
      from n have "0 < n" by (auto simp: largest_at_def)
      show ?thesis
      proof (cases "st = chunk_store c b n")
        case True
        with n \<open>b < C\<close> show ?thesis by blast
      next
        case False
        with less.prems eq have "st \<in> set (wb_chunk C c (b + n))" by simp
        moreover have "C - (b + n) < C - b" using \<open>b < C\<close> \<open>0 < n\<close> by simp
        ultimately obtain off k where "st = chunk_store c off k" "b + n \<le> off" "off < C"
          "largest_at (vBytes c) off k"
          using less.hyps by blast
        then show ?thesis by (intro exI [of _ off] exI [of _ k]) simp
      qed
    next
      fix n assume n: "0 < n" and eq: "wb_chunk C c b = wb_chunk C c (b + n)"
      with less.prems have "st \<in> set (wb_chunk C c (b + n))" by simp
      moreover have "C - (b + n) < C - b" using \<open>b < C\<close> n by simp
      ultimately obtain off k where "st = chunk_store c off k" "b + n \<le> off" "off < C"
        "largest_at (vBytes c) off k"
        using less.hyps by blast
      then show ?thesis by (intro exI [of _ off] exI [of _ k]) simp
    qed
  qed
qed

lemma aligned_block_contains:
  assumes "n \<in> {1, 2, 4, 8}" "w \<in> {1, 2, 4, 8}" "b mod n = 0" "off mod w = 0"
    "b < off" "off < b + n"
  shows "off + w \<le> b + (n::nat)"
proof -
  from assms(1,2) consider "n = 1" | "n = 2" | "n = 4" | "n = 8" by blast
  then show ?thesis
  proof cases
    case 1 with assms show ?thesis by simp
  next
    case 2 with assms show ?thesis by (elim insertE; simp; presburger)
  next
    case 3 with assms show ?thesis by (elim insertE; simp; presburger)
  next
    case 4 with assms show ?thesis by (elim insertE; simp; presburger)
  qed
qed

text \<open>A valid scalar at an aligned offset lies inside one store.\<close>

lemma wb_chunk_scalar:
  assumes "w \<in> {1, 2, 4, 8}" "off mod w = 0" "off + w \<le> C" "allv (vBytes c) off w"
  shows "b \<le> off \<Longrightarrow>
     \<exists>off' n. chunk_store c off' n \<in> set (wb_chunk C c b) \<and> largest_at (vBytes c) off' n
              \<and> off' \<le> off \<and> off + w \<le> off' + n"
proof (induction "C - b" arbitrary: b rule: less_induct)
  case less
  from assms(1) have w0: "0 < w" by auto
  with assms(3) less.prems have bC: "b < C" by simp
  have voff: "bit (vBytes c) off" using allv_bit [OF assms(4) w0] by simp
  from wb_chunk_cases [OF bC, of c] show ?case
  proof (elim disjE exE conjE)
    fix n assume n: "largest_at (vBytes c) b n"
      and eq: "wb_chunk C c b = chunk_store c b n # wb_chunk C c (b + n)"
    from n have n0: "0 < n" and nin: "n \<in> {1, 2, 4, 8}" and bn: "b mod n = 0"
      by (auto simp: largest_at_def)
    show ?thesis
    proof (cases "b + n \<le> off")
      case True
      moreover have "C - (b + n) < C - b" using bC n0 by simp
      ultimately obtain off' k where "chunk_store c off' k \<in> set (wb_chunk C c (b + n))"
        "largest_at (vBytes c) off' k" "off' \<le> off" "off + w \<le> off' + k"
        using less.hyps by blast
      then show ?thesis using eq by (intro exI [of _ off'] exI [of _ k]) simp
    next
      case False
      have "off + w \<le> b + n"
      proof (cases "b = off")
        case True
        have "w \<le> n"
        proof (rule ccontr)
          assume "\<not> w \<le> n"
          then have "n < w" by simp
          moreover from this nin assms(1) have "w \<in> {2, 4, 8}" by auto
          ultimately have "\<not> (b mod w = 0 \<and> allv (vBytes c) b w)"
            using n by (auto simp: largest_at_def)
          with True assms(2,4) show False by simp
        qed
        with True show ?thesis by simp
      next
        case False
        with less.prems \<open>\<not> b + n \<le> off\<close> have "b < off" "off < b + n" by simp_all
        then show ?thesis using aligned_block_contains [OF nin assms(1) bn assms(2)] by blast
      qed
      with n eq less.prems show ?thesis by (intro exI [of _ b] exI [of _ n]) simp
    qed
  next
    fix n assume n0: "0 < n" and nv: "nonev (vBytes c) b n"
      and eq: "wb_chunk C c b = wb_chunk C c (b + n)"
    have "b + n \<le> off"
    proof (rule ccontr)
      assume "\<not> b + n \<le> off"
      then have "off < b + n" by simp
      from nonev_bit [OF nv less.prems this] voff show False by simp
    qed
    moreover have "C - (b + n) < C - b" using bC n0 by simp
    ultimately obtain off' k where "chunk_store c off' k \<in> set (wb_chunk C c (b + n))"
      "largest_at (vBytes c) off' k" "off' \<le> off" "off + w \<le> off' + k"
      using less.hyps by blast
    then show ?thesis using eq by (intro exI [of _ off'] exI [of _ k]) simp
  qed
qed

lemma write_bytes_other:
  "(\<forall>k<length bs. x \<noteq> a + of_nat k) \<Longrightarrow> write_bytes mem a bs x = mem x"
proof (induction bs arbitrary: mem a)
  case Nil
  then show ?case by simp
next
  case (Cons b bs)
  have "\<forall>k<length bs. x \<noteq> (a + 1) + of_nat k"
  proof (intro allI impI)
    fix k assume "k < length bs"
    then have "x \<noteq> a + of_nat (Suc k)" using Cons.prems by auto
    then show "x \<noteq> (a + 1) + of_nat k" by (simp add: ac_simps)
  qed
  then have "write_bytes (mem(a := b)) (a + 1) bs x = (mem(a := b)) x"
    by (rule Cons.IH)
  moreover have "x \<noteq> a" using Cons.prems by fastforce
  ultimately show ?case by simp
qed

lemma write_bytes_rel:
  assumes "\<forall>k<length bs. R (a + of_nat k) (bs ! k)"
    and "\<exists>k<length bs. x = a + of_nat k"
  shows "R x (write_bytes mem a bs x)"
  using assms
proof (induction bs arbitrary: mem a)
  case Nil
  then show ?case by simp
next
  case (Cons b bs)
  have tl: "\<forall>k<length bs. R ((a + 1) + of_nat k) (bs ! k)"
  proof (intro allI impI)
    fix k assume "k < length bs"
    then have "R (a + of_nat (Suc k)) ((b # bs) ! Suc k)" using Cons.prems(1) by auto
    then show "R ((a + 1) + of_nat k) (bs ! k)" by (simp add: ac_simps)
  qed
  show ?case
  proof (cases "\<exists>k<length bs. x = (a + 1) + of_nat k")
    case True
    from Cons.IH [OF tl True] show ?thesis by simp
  next
    case False
    then have "write_bytes (mem(a := b)) (a + 1) bs x = (mem(a := b)) x"
      by (intro write_bytes_other) simp
    moreover have "x = a"
    proof -
      from Cons.prems(2) obtain k where k: "k < length (b # bs)" "x = a + of_nat k" by blast
      show ?thesis
      proof (cases k)
        case 0
        with k show ?thesis by simp
      next
        case (Suc k')
        with k have "k' < length bs" "x = (a + 1) + of_nat k'"
          by (simp_all add: ac_simps)
        with False show ?thesis by blast
      qed
    qed
    moreover have "R a b" using Cons.prems(1) by fastforce
    ultimately show ?thesis by simp
  qed
qed

lemma fold_do_store:
  assumes "\<forall>st \<in> set L. \<forall>k<length (st_bytes st). R (st_addr st + of_nat k) (st_bytes st ! k)"
  shows "((\<exists>st \<in> set L. covers st x) \<longrightarrow> R x (fold do_store L mem x))
       \<and> ((\<forall>st \<in> set L. \<not> covers st x) \<longrightarrow> fold do_store L mem x = mem x)"
  using assms
proof (induction L arbitrary: mem)
  case Nil
  then show ?case by simp
next
  case (Cons st L)
  have ih: "((\<exists>st \<in> set L. covers st x) \<longrightarrow> R x (fold do_store L (do_store st mem) x))
       \<and> ((\<forall>st \<in> set L. \<not> covers st x) \<longrightarrow>
            fold do_store L (do_store st mem) x = do_store st mem x)"
    using Cons.IH [of "do_store st mem"] Cons.prems by simp
  have ok: "\<forall>k<length (st_bytes st). R (st_addr st + of_nat k) (st_bytes st ! k)"
    using Cons.prems by simp
  have c: "covers st x \<Longrightarrow> R x (do_store st mem x)"
    unfolding covers_def do_store_def by (rule write_bytes_rel [OF ok])
  have n: "\<not> covers st x \<Longrightarrow> do_store st mem x = mem x"
    unfolding covers_def do_store_def by (rule write_bytes_other) simp
  show ?case
  proof (cases "\<exists>st \<in> set L. covers st x")
    case True
    with ih show ?thesis by auto
  next
    case False
    with ih have "fold do_store L (do_store st mem) x = do_store st mem x" by simp
    with False c n show ?thesis by (cases "covers st x") simp_all
  qed
qed

lemma chunksize_room:
  assumes "chunksize_ok C" "(n::nat) mod C = 0" "n < 18446744073709551616"
  shows "n + C \<le> 18446744073709551616"
proof -
  from assms(1) consider "C = 8" | "C = 16" | "C = 32" | "C = 64"
    unfolding chunksize_ok_def by blast
  then show ?thesis
  proof cases
    case 1 with assms(2,3) show ?thesis by presburger
  next
    case 2 with assms(2,3) show ?thesis by presburger
  next
    case 3 with assms(2,3) show ?thesis by presburger
  next
    case 4 with assms(2,3) show ?thesis by presburger
  qed
qed

lemma aligned_no_overflow:
  fixes a :: u64
  assumes "chunksize_ok C" "unat a mod C = 0" "j < C"
  shows "unat (a + of_nat j) = unat a + j"
proof -
  have lt: "unat a < 18446744073709551616" using unsigned_less [of a] by simp
  have room: "unat a + C \<le> 18446744073709551616"
    by (rule chunksize_room [OF assms(1,2) lt])
  have j64: "j < 2 ^ LENGTH(64)" using room assms(3) by simp
  have uj: "unat (of_nat j :: u64) = j"
    by (rule of_nat_inverse [OF refl j64])
  have "unat a + unat (of_nat j :: u64) < 2 ^ LENGTH(64)"
    using room assms(3) uj by simp
  then have "unat (a + of_nat j) = unat a + unat (of_nat j :: u64)"
    by (simp only: unat_add_lem)
  with uj show ?thesis by simp
qed

lemma chunk_addr_unique:
  fixes a a' :: u64
  assumes "chunksize_ok C" "unat a mod C = 0" "unat a' mod C = 0" "j < C" "j' < C"
    and eq: "a + of_nat j = a' + of_nat j'"
  shows "a = a' \<and> j = j'"
proof -
  have s: "unat a + j = unat a' + j'"
    using aligned_no_overflow [OF assms(1,2,4)] aligned_no_overflow [OF assms(1,3,5)] eq
    by simp
  have "(unat a + j) mod C = j"
    using assms(2,4) by (metis add_cancel_left_left mod_add_left_eq mod_less)
  moreover have "(unat a' + j') mod C = j'"
    using assms(3,5) by (metis add_cancel_left_left mod_add_left_eq mod_less)
  ultimately have j: "j = j'" using s by simp
  with s have "unat a = unat a'" by simp
  then have "a = a'" by (simp add: word_unat_eq_iff)
  with j show ?thesis by simp
qed

lemma largest_at_fits:
  assumes "chunksize_ok C" "largest_at v off n" "off < C"
  shows "off + n \<le> C"
proof -
  from assms(2) have n: "n \<in> {1, 2, 4, 8}" and m: "off mod n = 0"
    by (simp_all add: largest_at_def)
  from assms(1) consider "C = 8" | "C = 16" | "C = 32" | "C = 64"
    unfolding chunksize_ok_def by blast
  then show ?thesis
  proof cases
    case 1 with n m assms(3) show ?thesis by (elim insertE; simp; presburger)
  next
    case 2 with n m assms(3) show ?thesis by (elim insertE; simp; presburger)
  next
    case 3 with n m assms(3) show ?thesis by (elim insertE; simp; presburger)
  next
    case 4 with n m assms(3) show ?thesis by (elim insertE; simp; presburger)
  qed
qed

lemma chunksize_dvd:
  assumes "chunksize_ok C" "n \<in> {1, 2, 4, 8}" "(a::nat) mod C = 0" "off mod n = 0"
  shows "(a + off) mod n = 0"
proof -
  have "n dvd C" using assms(1,2) unfolding chunksize_ok_def by auto
  moreover have "C dvd a" using assms(3) by auto
  ultimately have "n dvd a" by (rule dvd_trans)
  moreover have "n dvd off" using assms(4) by auto
  ultimately have "n dvd a + off" by (rule dvd_add)
  then show ?thesis by auto
qed

lemma chunk_store_aligned:
  assumes "chunksize_ok C" "unat (bAddr c) mod C = 0" "largest_at v off n" "off < C"
  shows "unat (st_addr (chunk_store c off n)) mod n = 0"
proof -
  have "unat (bAddr c + of_nat off) = unat (bAddr c) + off"
    by (rule aligned_no_overflow [OF assms(1,2,4)])
  moreover have "(unat (bAddr c) + off) mod n = 0"
    using assms(3) by (intro chunksize_dvd [OF assms(1) _ assms(2)]) (simp_all add: largest_at_def)
  ultimately show ?thesis by (simp add: chunk_store_def)
qed

lemma chunks_wf_nth:
  assumes "chunks_wf C s" "i < vec_count s"
  shows "length (data (vec_chunks s ! i)) = C" "unat (bAddr (vec_chunks s ! i)) mod C = 0"
proof -
  from assms have "i < length (take (vec_count s) (vec_chunks s))"
    by (simp add: chunks_wf_def)
  then have "take (vec_count s) (vec_chunks s) ! i \<in> set (take (vec_count s) (vec_chunks s))"
    by (rule nth_mem)
  with assms(2) have "vec_chunks s ! i \<in> set (take (vec_count s) (vec_chunks s))"
    by simp
  with assms(1) show "length (data (vec_chunks s ! i)) = C"
    "unat (bAddr (vec_chunks s ! i)) mod C = 0"
    by (simp_all add: chunks_wf_def)
qed

lemma chunks_wf_distinct:
  assumes "chunks_wf C s" "i < vec_count s" "j < vec_count s"
    "bAddr (vec_chunks s ! i) = bAddr (vec_chunks s ! j)"
  shows "i = j"
proof -
  let ?m = "map bAddr (take (vec_count s) (vec_chunks s))"
  from assms(1) have d: "distinct ?m" and l: "length ?m = vec_count s"
    by (simp_all add: chunks_wf_def)
  have "?m ! i = ?m ! j" using assms(2-4) l by simp
  moreover have "i < length ?m" "j < length ?m" using assms(2,3) l by simp_all
  ultimately show ?thesis using d by (simp only: nth_eq_iff_index_eq)
qed

lemma writeback_stores_iff:
  "st \<in> set (writeback_stores C s) \<longleftrightarrow>
     (\<exists>i<vec_count s. st \<in> set (wb_chunk C (vec_chunks s ! i) 0))"
  by (auto simp: writeback_stores_def)

lemma writeback_stores_shape:
  assumes ok: "chunksize_ok C" and wf: "chunks_wf C s"
    and st: "st \<in> set (writeback_stores C s)"
  shows "\<exists>i<vec_count s. \<exists>off n. st = chunk_store (vec_chunks s ! i) off n
           \<and> largest_at (vBytes (vec_chunks s ! i)) off n \<and> off + n \<le> C
           \<and> length (st_bytes st) = n \<and> unat (st_addr st) mod n = 0"
proof -
  from st obtain i where i: "i < vec_count s" "st \<in> set (wb_chunk C (vec_chunks s ! i) 0)"
    by (auto simp: writeback_stores_iff)
  let ?c = "vec_chunks s ! i"
  from wb_chunk_stores [OF i(2)] obtain off n where
    on: "st = chunk_store ?c off n" "off < C" "largest_at (vBytes ?c) off n"
    by blast
  from chunks_wf_nth [OF wf i(1)]
  have len: "length (data ?c) = C" and al: "unat (bAddr ?c) mod C = 0" .
  have fit: "off + n \<le> C" by (rule largest_at_fits [OF ok on(3,2)])
  have l: "length (st_bytes st) = n" using on(1) len fit by (simp add: chunk_store_def)
  have a: "unat (st_addr st) mod n = 0"
    unfolding on(1) by (rule chunk_store_aligned [OF ok al on(3,2)])
  have "st = chunk_store ?c off n \<and> largest_at (vBytes ?c) off n \<and> off + n \<le> C
        \<and> length (st_bytes st) = n \<and> unat (st_addr st) mod n = 0"
    by (intro conjI) (fact on(1) on(3) fit l a)+
  then have "\<exists>off n. st = chunk_store ?c off n \<and> largest_at (vBytes ?c) off n \<and> off + n \<le> C
        \<and> length (st_bytes st) = n \<and> unat (st_addr st) mod n = 0"
    by (intro exI)
  with i(1) show ?thesis by - (rule exI [of _ i], rule conjI, assumption, assumption)
qed

lemma writeback_stores_target:
  assumes ok: "chunksize_ok C" and wf: "chunks_wf C s"
  shows "\<forall>st \<in> set (writeback_stores C s).
           \<forall>k<length (st_bytes st). target C s (st_addr st + of_nat k) (st_bytes st ! k)"
proof (intro ballI allI impI)
  fix st k assume st: "st \<in> set (writeback_stores C s)" and k: "k < length (st_bytes st)"
  from writeback_stores_shape [OF ok wf st] obtain i off n where
    i: "i < vec_count s" and eq: "st = chunk_store (vec_chunks s ! i) off n"
    and la: "largest_at (vBytes (vec_chunks s ! i)) off n" and fit: "off + n \<le> C"
    and l: "length (st_bytes st) = n"
    by blast
  let ?c = "vec_chunks s ! i"
  from chunks_wf_nth [OF wf i] have len: "length (data ?c) = C" by simp
  from k l have kn: "k < n" by simp
  from la have "allv (vBytes ?c) off n" by (simp add: largest_at_def)
  then have b: "bit (vBytes ?c) (off + k)" using kn by (rule allv_bit)
  have a: "st_addr st + of_nat k = bAddr ?c + of_nat (off + k)"
    by (simp add: eq chunk_store_def)
  have v: "st_bytes st ! k = data ?c ! (off + k)"
    using kn fit len by (simp add: eq chunk_store_def)
  have "off + k < C" using kn fit by simp
  with i b a v show "target C s (st_addr st + of_nat k) (st_bytes st ! k)"
    unfolding target_def by blast
qed

lemma target_unique:
  assumes ok: "chunksize_ok C" and wf: "chunks_wf C s"
    and t: "target C s (bAddr (vec_chunks s ! i) + of_nat j) y"
    and i: "i < vec_count s" and j: "j < C"
  shows "y = data (vec_chunks s ! i) ! j"
proof -
  from t obtain i' j' where i': "i' < vec_count s" and j': "j' < C"
    and eq: "bAddr (vec_chunks s ! i) + of_nat j = bAddr (vec_chunks s ! i') + of_nat j'"
    and y: "y = data (vec_chunks s ! i') ! j'"
    unfolding target_def by blast
  from chunks_wf_nth [OF wf i] chunks_wf_nth [OF wf i']
  have al: "unat (bAddr (vec_chunks s ! i)) mod C = 0"
    "unat (bAddr (vec_chunks s ! i')) mod C = 0"
    by simp_all
  from chunk_addr_unique [OF ok al j j' eq]
  have "bAddr (vec_chunks s ! i) = bAddr (vec_chunks s ! i')" "j = j'" by simp_all
  moreover from this(1) have "i = i'" by (rule chunks_wf_distinct [OF wf i i'])
  ultimately show ?thesis using y by simp
qed

lemma covers_chunk_store:
  assumes "length (data c) = C" "off + n \<le> C"
  shows "covers (chunk_store c off n) x \<longleftrightarrow> (\<exists>k<n. x = bAddr c + of_nat (off + k))"
proof -
  have "length (take n (drop off (data c))) = n" using assms by simp
  then show ?thesis by (simp add: covers_def chunk_store_def add.assoc)
qed

text \<open>The stores of one chunk's loop lie at increasing offsets and do not overlap.\<close>

lemma wb_chunk_later:
  assumes ok: "chunksize_ok C" and len: "length (data c) = C"
    and al: "unat (bAddr c) mod C = 0"
    and st: "st \<in> set (wb_chunk C c b')" and x: "covers st x"
    and k: "x = bAddr c + of_nat j" "j < b'"
  shows False
proof -
  from wb_chunk_stores [OF st] obtain off n where
    on: "st = chunk_store c off n" "b' \<le> off" "off < C" "largest_at (vBytes c) off n"
    by blast
  have fit: "off + n \<le> C" by (rule largest_at_fits [OF ok on(4,3)])
  from x obtain k' where k': "k' < n" "x = bAddr c + of_nat (off + k')"
    unfolding on(1) covers_chunk_store [OF len fit] by blast
  have "j < C" using k(2) on(2,3) by simp
  moreover have "off + k' < C" using k'(1) fit by simp
  ultimately have "j = off + k'"
    using chunk_addr_unique [OF ok al al, of j "off + k'"] k(1) k'(2) by simp
  with k(2) on(2) show False by simp
qed

lemma wb_chunk_once:
  assumes ok: "chunksize_ok C" and len: "length (data c) = C"
    and al: "unat (bAddr c) mod C = 0"
  shows "length (filter (\<lambda>st. covers st x) (wb_chunk C c b)) \<le> 1"
proof (induction "C - b" arbitrary: b rule: less_induct)
  case less
  show ?case
  proof (cases "b < C")
    case False
    then show ?thesis by (simp add: wb_chunk_done)
  next
    case True
    from wb_chunk_cases [OF True, of c] show ?thesis
    proof (elim disjE exE conjE)
      fix n assume n: "largest_at (vBytes c) b n"
        and eq: "wb_chunk C c b = chunk_store c b n # wb_chunk C c (b + n)"
      from n have n0: "0 < n" by (auto simp: largest_at_def)
      have fit: "b + n \<le> C" by (rule largest_at_fits [OF ok n True])
      have lt: "C - (b + n) < C - b" using True n0 by simp
      show ?thesis
      proof (cases "covers (chunk_store c b n) x")
        case False
        with eq less.hyps [OF lt] show ?thesis by simp
      next
        case True
        then obtain k where k: "k < n" "x = bAddr c + of_nat (b + k)"
          unfolding covers_chunk_store [OF len fit] by blast
        have "\<not> covers st x" if "st \<in> set (wb_chunk C c (b + n))" for st
        proof
          assume "covers st x"
          from wb_chunk_later [OF ok len al that this k(2)] k(1) show False by simp
        qed
        then have "filter (\<lambda>st. covers st x) (wb_chunk C c (b + n)) = []"
          by (simp add: filter_empty_conv)
        with eq True show ?thesis by simp
      qed
    next
      fix n assume n: "0 < n" and eq: "wb_chunk C c b = wb_chunk C c (b + n)"
      have lt: "C - (b + n) < C - b" using True n by simp
      from less.hyps [OF lt] eq show ?thesis by simp
    qed
  qed
qed

lemma concat_filter_once:
  assumes "distinct js"
    and "\<forall>i \<in> set js. length (filter P (f i)) \<le> 1"
    and "\<forall>i \<in> set js. \<forall>j \<in> set js. (\<exists>a \<in> set (f i). P a) \<and> (\<exists>a \<in> set (f j). P a)
            \<longrightarrow> i = j"
  shows "length (filter P (concat (map f js))) \<le> 1"
  using assms
proof (induction js)
  case Nil
  then show ?case by simp
next
  case (Cons i js)
  have ih: "length (filter P (concat (map f js))) \<le> 1"
    using Cons.prems by (intro Cons.IH) simp_all
  show ?case
  proof (cases "\<exists>a \<in> set (f i). P a")
    case False
    then have "filter P (f i) = []" by (simp add: filter_empty_conv)
    with ih show ?thesis by simp
  next
    case True
    have "\<not> P a" if "a \<in> set (concat (map f js))" for a
    proof
      assume "P a"
      from that obtain j where j: "j \<in> set js" "a \<in> set (f j)" by auto
      with \<open>P a\<close> True Cons.prems(3) have "i = j" by (meson list.set_intros)
      with j(1) Cons.prems(1) show False by simp
    qed
    then have "filter P (concat (map f js)) = []" by (simp add: filter_empty_conv)
    moreover have "length (filter P (f i)) \<le> 1" using Cons.prems(2) by simp
    ultimately show ?thesis by simp
  qed
qed

text \<open>No address is written twice by \<^verbatim>\<open>writeback\<close>.\<close>

lemma writeback_stores_once:
  assumes ok: "chunksize_ok C" and wf: "chunks_wf C s"
  shows "length (filter (\<lambda>st. covers st x) (writeback_stores C s)) \<le> 1"
  unfolding writeback_stores_def
proof (rule concat_filter_once)
  show "distinct [0..<vec_count s]" by simp
  show "\<forall>i \<in> set [0..<vec_count s].
          length (filter (\<lambda>st. covers st x) (wb_chunk C (vec_chunks s ! i) 0)) \<le> 1"
  proof
    fix i assume "i \<in> set [0..<vec_count s]"
    then have i: "i < vec_count s" by simp
    from chunks_wf_nth [OF wf i] show
      "length (filter (\<lambda>st. covers st x) (wb_chunk C (vec_chunks s ! i) 0)) \<le> 1"
      by (intro wb_chunk_once [OF ok])
  qed
  show "\<forall>i \<in> set [0..<vec_count s]. \<forall>j \<in> set [0..<vec_count s].
          (\<exists>a \<in> set (wb_chunk C (vec_chunks s ! i) 0). covers a x)
          \<and> (\<exists>a \<in> set (wb_chunk C (vec_chunks s ! j) 0). covers a x) \<longrightarrow> i = j"
  proof (intro ballI impI, elim conjE bexE)
    fix i j a a'
    assume "i \<in> set [0..<vec_count s]" "j \<in> set [0..<vec_count s]"
      and a: "a \<in> set (wb_chunk C (vec_chunks s ! i) 0)" "covers a x"
      and a': "a' \<in> set (wb_chunk C (vec_chunks s ! j) 0)" "covers a' x"
    then have i: "i < vec_count s" and j: "j < vec_count s" by simp_all
    have pos: "\<exists>o1<C. x = bAddr (vec_chunks s ! m) + of_nat o1"
      if m: "m < vec_count s" and b: "b \<in> set (wb_chunk C (vec_chunks s ! m) 0)" "covers b x"
      for m b
    proof -
      from wb_chunk_stores [OF b(1)] obtain off n where
        on: "b = chunk_store (vec_chunks s ! m) off n" "off < C"
          "largest_at (vBytes (vec_chunks s ! m)) off n"
        by blast
      have fit: "off + n \<le> C" by (rule largest_at_fits [OF ok on(3,2)])
      from b(2) obtain k where
        "k < n" "x = bAddr (vec_chunks s ! m) + of_nat (off + k)"
        unfolding on(1) covers_chunk_store [OF chunks_wf_nth(1) [OF wf m] fit] by blast
      with fit show ?thesis by (intro exI [of _ "off + k"]) simp
    qed
    from pos [OF i a] obtain o1 where o1: "o1 < C" "x = bAddr (vec_chunks s ! i) + of_nat o1"
      by blast
    from pos [OF j a'] obtain o2 where o2: "o2 < C" "x = bAddr (vec_chunks s ! j) + of_nat o2"
      by blast
    from chunk_addr_unique [OF ok chunks_wf_nth(2) [OF wf i] chunks_wf_nth(2) [OF wf j] o1(1) o2(1)]
      o1(2) o2(2)
    have "bAddr (vec_chunks s ! i) = bAddr (vec_chunks s ! j)" by simp
    then show "i = j" by (rule chunks_wf_distinct [OF wf i j])
  qed
qed

lemma once_unique:
  assumes "length (filter P L) \<le> 1" "a \<in> set L" "b \<in> set L" "P a" "P b"
  shows "a = b"
proof (rule ccontr)
  assume ne: "a \<noteq> b"
  have "{a, b} \<subseteq> set (filter P L)" using assms(2-5) by simp
  then have "card {a, b} \<le> card (set (filter P L))" by (intro card_mono) simp_all
  also have "\<dots> \<le> length (filter P L)" by (rule card_length)
  finally show False using ne assms(1) by simp
qed

lemma covers_inside:
  assumes "length (data c) = C" "off + n \<le> C" "off \<le> j" "j < off + n"
  shows "covers (chunk_store c off n) (bAddr c + of_nat j)"
  unfolding covers_chunk_store [OF assms(1,2)]
  using assms(3,4) by (intro exI [of _ "j - off"]) simp

lemma writeback_scalar:
  assumes "i < vec_count s" "w \<in> {1, 2, 4, 8}" "off mod w = 0" "off + w \<le> C"
    "allv (vBytes (vec_chunks s ! i)) off w"
  shows "\<exists>off' n. chunk_store (vec_chunks s ! i) off' n \<in> set (writeback_stores C s)
               \<and> largest_at (vBytes (vec_chunks s ! i)) off' n
               \<and> off' \<le> off \<and> off + w \<le> off' + n"
proof -
  from wb_chunk_scalar [OF assms(2-5), of 0] obtain off' n where
    h: "chunk_store (vec_chunks s ! i) off' n \<in> set (wb_chunk C (vec_chunks s ! i) 0)"
       "largest_at (vBytes (vec_chunks s ! i)) off' n" "off' \<le> off" "off + w \<le> off' + n"
    by blast
  from h(1) assms(1) have "chunk_store (vec_chunks s ! i) off' n \<in> set (writeback_stores C s)"
    unfolding writeback_stores_iff by blast
  with h(2-4) show ?thesis by blast
qed

text \<open>A store is never part of a larger aligned block that is valid throughout.\<close>

lemma aligned_block_room:
  assumes "chunksize_ok C" "n' \<in> {2, 4, 8}" "(off::nat) < C"
  shows "off - off mod n' + n' \<le> C" "(off - off mod n') mod n' = 0"
    "off - off mod n' \<le> off" "off < off - off mod n' + n'"
proof -
  from assms(1) consider "C = 8" | "C = 16" | "C = 32" | "C = 64"
    unfolding chunksize_ok_def by blast
  then show "off - off mod n' + n' \<le> C"
  proof cases
    case 1 with assms(2,3) show ?thesis by (elim insertE; simp; presburger)
  next
    case 2 with assms(2,3) show ?thesis by (elim insertE; simp; presburger)
  next
    case 3 with assms(2,3) show ?thesis by (elim insertE; simp; presburger)
  next
    case 4 with assms(2,3) show ?thesis by (elim insertE; simp; presburger)
  qed
  show "(off - off mod n') mod n' = 0" by (simp add: minus_mod_eq_mult_div)
  show "off - off mod n' \<le> off" by simp
  have "0 < n'" using assms(2) by auto
  then have "off mod n' < n'" by simp
  then show "off < off - off mod n' + n'" by simp
qed

lemma writeback_stores_maximal:
  assumes ok: "chunksize_ok C" and wf: "chunks_wf C s"
    and i: "i < vec_count s"
    and st: "chunk_store (vec_chunks s ! i) off n \<in> set (writeback_stores C s)"
    and la: "largest_at (vBytes (vec_chunks s ! i)) off n" and fit: "off + n \<le> C"
    and n': "n' \<in> {2, 4, 8}" "n < n'"
  shows "\<not> allv (vBytes (vec_chunks s ! i)) (off - off mod n') n'"
proof
  let ?c = "vec_chunks s ! i" and ?b = "off - off mod n'"
  assume av: "allv (vBytes ?c) ?b n'"
  from la have n0: "0 < n" by (auto simp: largest_at_def)
  have offC: "off < C" using fit n0 by simp
  note r = aligned_block_room [OF ok n'(1) offC]
  have w: "n' \<in> {1, 2, 4, 8}" using n'(1) by auto
  from writeback_scalar [OF i w r(2) r(1) av] obtain off' m where
    m: "chunk_store ?c off' m \<in> set (writeback_stores C s)"
    and lm: "largest_at (vBytes ?c) off' m" and le: "off' \<le> ?b" "?b + n' \<le> off' + m"
    by blast
  have len: "length (data ?c) = C" by (rule chunks_wf_nth(1) [OF wf i])
  have off'C: "off' < C" using le(1) r(3) offC by simp
  have fit': "off' + m \<le> C" by (rule largest_at_fits [OF ok lm off'C])
  have c1: "covers (chunk_store ?c off n) (bAddr ?c + of_nat off)"
    using n0 by (intro covers_inside [OF len fit]) simp_all
  have c2: "covers (chunk_store ?c off' m) (bAddr ?c + of_nat off)"
    using le r(3,4) by (intro covers_inside [OF len fit']) simp_all
  from once_unique [OF writeback_stores_once [OF ok wf] st m, of "bAddr ?c + of_nat off"] c1 c2
  have "chunk_store ?c off n = chunk_store ?c off' m" by simp
  then have "length (st_bytes (chunk_store ?c off n)) = length (st_bytes (chunk_store ?c off' m))"
    by simp
  then have "n = m" using len fit fit' by (simp add: chunk_store_def)
  with le n'(2) show False by simp
qed

lemma writeback_valid_store:
  assumes ok: "chunksize_ok C" and wf: "chunks_wf C s"
    and i: "i < vec_count s" and j: "j < C" and b: "bit (vBytes (vec_chunks s ! i)) j"
  shows "\<exists>st \<in> set (writeback_stores C s). covers st (bAddr (vec_chunks s ! i) + of_nat j)"
proof -
  let ?c = "vec_chunks s ! i"
  have a1: "allv (vBytes ?c) j 1" using b by (simp add: allv_def)
  have p: "(1::nat) \<in> {1, 2, 4, 8}" "j mod 1 = 0" "j + 1 \<le> C" using j by simp_all
  from writeback_scalar [OF i p a1] obtain off' n where
    m: "chunk_store ?c off' n \<in> set (writeback_stores C s)"
    and la: "largest_at (vBytes ?c) off' n"
    and r: "off' \<le> j" "j + 1 \<le> off' + n"
    by blast
  have len: "length (data ?c) = C" by (rule chunks_wf_nth(1) [OF wf i])
  have "off' < C" using r j by simp
  from largest_at_fits [OF ok la this] have fit: "off' + n \<le> C" .
  have "covers (chunk_store ?c off' n) (bAddr ?c + of_nat j)"
    using r by (intro covers_inside [OF len fit]) simp_all
  with m show ?thesis by (rule bexI [rotated])
qed

lemma writeback_valid_byte:
  assumes ok: "chunksize_ok C" and wf: "chunks_wf C s"
    and i: "i < vec_count s" and j: "j < C" and b: "bit (vBytes (vec_chunks s ! i)) j"
  shows "writeback C s mem (bAddr (vec_chunks s ! i) + of_nat j) = data (vec_chunks s ! i) ! j"
    "length (filter (\<lambda>st. covers st (bAddr (vec_chunks s ! i) + of_nat j))
               (writeback_stores C s)) = 1"
proof -
  let ?L = "writeback_stores C s"
  let ?x = "bAddr (vec_chunks s ! i) + of_nat j"
  note tg = writeback_stores_target [OF ok wf]
  note ex = writeback_valid_store [OF ok wf i j b]
  with fold_do_store [OF tg, of ?x mem, THEN conjunct1]
  have "target C s ?x (fold do_store ?L mem ?x)" by (rule mp)
  then have "target C s ?x (writeback C s mem ?x)"
    by (simp only: writeback_def)
  from target_unique [OF ok wf this i j]
  show "writeback C s mem ?x = data (vec_chunks s ! i) ! j" .
  from ex have "filter (\<lambda>st. covers st ?x) ?L \<noteq> []" by (simp add: filter_empty_conv)
  with writeback_stores_once [OF ok wf, of ?x]
  show "length (filter (\<lambda>st. covers st ?x) ?L) = 1"
    by (cases "filter (\<lambda>st. covers st ?x) ?L") simp_all
qed

lemma writeback_frame:
  assumes ok: "chunksize_ok C" and wf: "chunks_wf C s"
    and h: "\<forall>i<vec_count s. \<forall>j<C. bit (vBytes (vec_chunks s ! i)) j \<longrightarrow>
                   a \<noteq> bAddr (vec_chunks s ! i) + of_nat j"
  shows "writeback C s mem a = mem a"
proof -
  let ?L = "writeback_stores C s"
  note tg = writeback_stores_target [OF ok wf]
  have "\<forall>st \<in> set ?L. \<not> covers st a"
  proof (intro ballI notI)
    fix st assume st: "st \<in> set ?L" and c: "covers st a"
    then obtain k where "k < length (st_bytes st)" "a = st_addr st + of_nat k"
      unfolding covers_def by blast
    with tg st have "target C s a (st_bytes st ! k)" by blast
    with h show False unfolding target_def by blast
  qed
  with fold_do_store [OF tg, of a mem, THEN conjunct2]
  have "fold do_store ?L mem a = mem a" by (rule mp)
  then show ?thesis by (simp only: writeback_def)
qed

lemma writeback_store_maximal:
  assumes ok: "chunksize_ok C" and wf: "chunks_wf C s"
    and st: "st \<in> set (writeback_stores C s)"
  shows "\<exists>i<vec_count s. \<exists>off n. st = chunk_store (vec_chunks s ! i) off n
           \<and> largest_at (vBytes (vec_chunks s ! i)) off n \<and> off + n \<le> C
           \<and> length (st_bytes st) = n \<and> unat (st_addr st) mod n = 0
           \<and> (\<forall>n' \<in> {2, 4, 8}. n < n' \<longrightarrow>
                 \<not> allv (vBytes (vec_chunks s ! i)) (off - off mod n') n')"
proof -
  from writeback_stores_shape [OF ok wf st] obtain i off n where
    i: "i < vec_count s" and eq: "st = chunk_store (vec_chunks s ! i) off n"
    and la: "largest_at (vBytes (vec_chunks s ! i)) off n" and fit: "off + n \<le> C"
    and l: "length (st_bytes st) = n" and a: "unat (st_addr st) mod n = 0"
    by (elim exE conjE) (rule that)
  have mx: "\<forall>n' \<in> {2, 4, 8}. n < n' \<longrightarrow>
               \<not> allv (vBytes (vec_chunks s ! i)) (off - off mod n') n'"
  proof (intro ballI impI)
    fix n' :: nat assume "n' \<in> {2, 4, 8}" "n < n'"
    from writeback_stores_maximal [OF ok wf i st [unfolded eq] la fit this]
    show "\<not> allv (vBytes (vec_chunks s ! i)) (off - off mod n') n'" .
  qed
  have "st = chunk_store (vec_chunks s ! i) off n
        \<and> largest_at (vBytes (vec_chunks s ! i)) off n \<and> off + n \<le> C
        \<and> length (st_bytes st) = n \<and> unat (st_addr st) mod n = 0
        \<and> (\<forall>n' \<in> {2, 4, 8}. n < n' \<longrightarrow>
              \<not> allv (vBytes (vec_chunks s ! i)) (off - off mod n') n')"
    by (intro conjI) (fact eq la fit l a mx)+
  then have "\<exists>off n. st = chunk_store (vec_chunks s ! i) off n
        \<and> largest_at (vBytes (vec_chunks s ! i)) off n \<and> off + n \<le> C
        \<and> length (st_bytes st) = n \<and> unat (st_addr st) mod n = 0
        \<and> (\<forall>n' \<in> {2, 4, 8}. n < n' \<longrightarrow>
              \<not> allv (vBytes (vec_chunks s ! i)) (off - off mod n') n')"
    by (intro exI)
  with i show ?thesis by - (rule exI [of _ i], rule conjI, assumption, assumption)
qed

lemma writeback_scalar_single:
  assumes ok: "chunksize_ok C" and wf: "chunks_wf C s"
    and i: "i < vec_count s" and w: "w \<in> {1, 2, 4, 8}" "off mod w = 0" "off + w \<le> C"
      "allv (vBytes (vec_chunks s ! i)) off w"
  shows "\<exists>off' n. chunk_store (vec_chunks s ! i) off' n \<in> set (writeback_stores C s)
           \<and> off' \<le> off \<and> off + w \<le> off' + n
           \<and> (\<forall>st \<in> set (writeback_stores C s).
                 (\<exists>k<w. covers st (bAddr (vec_chunks s ! i) + of_nat (off + k)))
                 \<longrightarrow> st = chunk_store (vec_chunks s ! i) off' n)"
proof -
  let ?c = "vec_chunks s ! i" and ?L = "writeback_stores C s"
  from writeback_scalar [OF i w] obtain off' n where
    m: "chunk_store ?c off' n \<in> set ?L" and la: "largest_at (vBytes ?c) off' n"
    and r: "off' \<le> off" "off + w \<le> off' + n"
    by blast
  have len: "length (data ?c) = C" by (rule chunks_wf_nth(1) [OF wf i])
  have w0: "0 < w" using w(1) by auto
  have "off' < C" using r(1) w(3) w0 by simp
  from largest_at_fits [OF ok la this] have fit: "off' + n \<le> C" .
  have only: "\<forall>st \<in> set ?L. (\<exists>k<w. covers st (bAddr ?c + of_nat (off + k)))
                 \<longrightarrow> st = chunk_store ?c off' n"
  proof (intro ballI impI, elim exE conjE)
    fix st k assume st: "st \<in> set ?L" and k: "k < w"
      and c: "covers st (bAddr ?c + of_nat (off + k))"
    have "covers (chunk_store ?c off' n) (bAddr ?c + of_nat (off + k))"
      using r k by (intro covers_inside [OF len fit]) simp_all
    from once_unique [OF writeback_stores_once [OF ok wf] st m,
        of "bAddr ?c + of_nat (off + k)", OF c this]
    show "st = chunk_store ?c off' n" .
  qed
  have "chunk_store ?c off' n \<in> set ?L \<and> off' \<le> off \<and> off + w \<le> off' + n
        \<and> (\<forall>st \<in> set ?L. (\<exists>k<w. covers st (bAddr ?c + of_nat (off + k)))
               \<longrightarrow> st = chunk_store ?c off' n)"
    by (intro conjI) (fact m r only)+
  then show ?thesis by (intro exI)
qed

section \<open>Addresses, chunk bases and offsets\<close>

lemma MASK_mask:
  assumes "chunksize_ok C"
  shows "\<exists>k. C = 2 ^ k \<and> MASK C = mask k \<and> k < 64"
proof -
  from assms consider "C = 8" | "C = 16" | "C = 32" | "C = 64"
    unfolding chunksize_ok_def by blast
  then show ?thesis
  proof cases
    case 1 then have "C = 2 ^ 3 \<and> MASK C = mask 3 \<and> (3::nat) < 64"
      by (simp add: MASK_def mask_eq_exp_minus_1)
    then show ?thesis by (rule exI)
  next
    case 2 then have "C = 2 ^ 4 \<and> MASK C = mask 4 \<and> (4::nat) < 64"
      by (simp add: MASK_def mask_eq_exp_minus_1)
    then show ?thesis by (rule exI)
  next
    case 3 then have "C = 2 ^ 5 \<and> MASK C = mask 5 \<and> (5::nat) < 64"
      by (simp add: MASK_def mask_eq_exp_minus_1)
    then show ?thesis by (rule exI)
  next
    case 4 then have "C = 2 ^ 6 \<and> MASK C = mask 6 \<and> (6::nat) < 64"
      by (simp add: MASK_def mask_eq_exp_minus_1)
    then show ?thesis by (rule exI)
  qed
qed

lemma addr_split:
  fixes a :: u64
  assumes "chunksize_ok C"
  shows "unat (a AND NOT (MASK C)) mod C = 0"
    "unat (a AND MASK C) = unat a mod C"
    "unat (a AND MASK C) < C"
    "(a AND NOT (MASK C)) + (a AND MASK C) = a"
proof -
  from MASK_mask [OF assms] obtain k where k: "C = 2 ^ k" "MASK C = mask k" "k < 64" by blast
  have "take_bit k (a AND NOT (mask k)) = 0"
    by (rule bit_eqI) (simp add: bit_take_bit_iff bit_and_iff bit_not_iff bit_mask_iff)
  then have "take_bit k (unat (a AND NOT (mask k))) = 0"
    by (metis unsigned_take_bit_eq unsigned_0)
  then have "unat (a AND NOT (mask k)) mod 2 ^ k = 0" by (simp add: take_bit_eq_mod)
  then show "unat (a AND NOT (MASK C)) mod C = 0"
    by (simp only: k(2)) (simp only: k(1))
  have "unat (a AND mask k) = unat (take_bit k a)" by (simp add: take_bit_eq_mask)
  also have "\<dots> = take_bit k (unat a)" by (rule unsigned_take_bit_eq)
  also have "\<dots> = unat a mod 2 ^ k" by (rule take_bit_eq_mod)
  finally show m: "unat (a AND MASK C) = unat a mod C"
    by (simp only: k(2)) (simp only: k(1))
  have "0 < C" using k(1) by simp
  then show "unat (a AND MASK C) < C" unfolding m by simp
  have "(a AND NOT (mask k)) AND (a AND mask k) = 0"
    by (rule bit_eqI) (simp add: bit_and_iff bit_not_iff bit_mask_iff)
  then have "(a AND NOT (mask k)) + (a AND mask k) = (a AND NOT (mask k)) OR (a AND mask k)"
    by (rule disjunctive_add_eq_or)
  also have "\<dots> = a"
    by (rule bit_eqI) (auto simp add: bit_or_iff bit_and_iff bit_not_iff bit_mask_iff)
  finally show "(a AND NOT (MASK C)) + (a AND MASK C) = a" by (simp only: k(2))
qed

text \<open>The bytes of a scalar that does not cross the end of its chunk share the chunk.\<close>

lemma addr_byte:
  fixes a :: u64
  assumes cs: "chunksize_ok C" and k: "unat (a AND MASK C) + k < C"
  shows "(a + of_nat k) AND NOT (MASK C) = a AND NOT (MASK C)"
    "unat ((a + of_nat k) AND MASK C) = unat (a AND MASK C) + k"
proof -
  let ?b = "a AND NOT (MASK C)" and ?o = "unat (a AND MASK C)"
  note sp = addr_split [OF cs, of a]
  have a: "a = ?b + of_nat ?o" using sp(4) by simp
  have ak: "a + of_nat k = ?b + of_nat (?o + k)" by (subst a) (simp add: add.assoc)
  have u: "unat (a + of_nat k) = unat ?b + (?o + k)"
    unfolding ak by (rule aligned_no_overflow [OF cs sp(1) k])
  have "unat ((a + of_nat k) AND MASK C) = unat (a + of_nat k) mod C"
    by (rule addr_split(2) [OF cs])
  also have "\<dots> = (?o + k) mod C" unfolding u using sp(1) by (metis add_cancel_left_left mod_add_left_eq)
  also have "\<dots> = ?o + k" using k by simp
  finally show o: "unat ((a + of_nat k) AND MASK C) = ?o + k" .
  have "((a + of_nat k) AND NOT (MASK C)) + ((a + of_nat k) AND MASK C) = a + of_nat k"
    by (rule addr_split(4) [OF cs])
  also have "\<dots> = ?b + of_nat (?o + k)" by (rule ak)
  finally have e: "((a + of_nat k) AND NOT (MASK C)) + ((a + of_nat k) AND MASK C)
                     = ?b + of_nat (?o + k)" .
  have "(a + of_nat k) AND MASK C = of_nat (?o + k)"
  proof -
    have "(a + of_nat k) AND MASK C = of_nat (unat ((a + of_nat k) AND MASK C))" by simp
    then show ?thesis by (simp only: o)
  qed
  with e show "(a + of_nat k) AND NOT (MASK C) = ?b" by (simp only: add_right_cancel)
qed

lemma scalar_fits:
  fixes a :: u64
  assumes cs: "chunksize_ok C" and w: "w \<in> {1, 2, 4, 8}" and al: "unat a mod w = 0"
  shows "unat (a AND MASK C) + w \<le> C"
proof -
  have o: "unat (a AND MASK C) = unat a mod C" by (rule addr_split(2) [OF cs])
  from cs consider "C = 8" | "C = 16" | "C = 32" | "C = 64"
    unfolding chunksize_ok_def by blast
  then show ?thesis unfolding o
  proof cases
    case 1 with w al show "unat a mod C + w \<le> C" by (elim insertE; simp; presburger)
  next
    case 2 with w al show "unat a mod C + w \<le> C" by (elim insertE; simp; presburger)
  next
    case 3 with w al show "unat a mod C + w \<le> C" by (elim insertE; simp; presburger)
  next
    case 4 with w al show "unat a mod C + w \<le> C" by (elim insertE; simp; presburger)
  qed
qed

text \<open>The bytes of the scalar at \<open>a\<close> are those at distance below \<open>w\<close> from \<open>a\<close>.\<close>

lemma addr_within:
  fixes a x :: u64
  assumes cs: "chunksize_ok C" and fit: "unat (a AND MASK C) + w \<le> C"
  shows "unat (x - a) < w \<longleftrightarrow>
           x AND NOT (MASK C) = a AND NOT (MASK C)
           \<and> unat (a AND MASK C) \<le> unat (x AND MASK C)
           \<and> unat (x AND MASK C) < unat (a AND MASK C) + w"
    "unat (x - a) < w \<Longrightarrow> unat (x AND MASK C) = unat (a AND MASK C) + unat (x - a)"
proof -
  have fwd: "x AND NOT (MASK C) = a AND NOT (MASK C)
             \<and> unat (x AND MASK C) = unat (a AND MASK C) + unat (x - a)"
    if "unat (x - a) < w"
  proof -
    have x: "x = a + of_nat (unat (x - a))" by simp
    have k: "unat (a AND MASK C) + unat (x - a) < C" using that fit by simp
    from addr_byte [OF cs k] x show ?thesis by metis
  qed
  then show "unat (x - a) < w \<Longrightarrow> unat (x AND MASK C) = unat (a AND MASK C) + unat (x - a)"
    by blast
  have bwd: "unat (x - a) < w"
    if h: "x AND NOT (MASK C) = a AND NOT (MASK C)"
      "unat (a AND MASK C) \<le> unat (x AND MASK C)"
      "unat (x AND MASK C) < unat (a AND MASK C) + w"
  proof -
    let ?d = "unat (x AND MASK C) - unat (a AND MASK C)"
    have d: "unat (a AND MASK C) + ?d < C" using h(2) addr_split(3) [OF cs, of x] by simp
    have "x = (x AND NOT (MASK C)) + (x AND MASK C)" using addr_split(4) [OF cs, of x] by simp
    also have "\<dots> = (a AND NOT (MASK C)) + of_nat (unat (a AND MASK C) + ?d)"
      using h(1,2) by simp
    also have "\<dots> = ((a AND NOT (MASK C)) + (a AND MASK C)) + of_nat ?d"
      by (simp add: add.assoc)
    also have "\<dots> = a + of_nat ?d" by (simp only: addr_split(4) [OF cs])
    finally have "x - a = of_nat ?d" by (metis add_diff_cancel_left')
    moreover have "?d < 2 ^ LENGTH(64)" using d addr_split(3) [OF cs, of x] cs
      by (auto simp: chunksize_ok_def)
    ultimately have "unat (x - a) = ?d" by (simp add: of_nat_inverse)
    with h(2,3) show ?thesis by simp
  qed
  from fwd bwd show "unat (x - a) < w \<longleftrightarrow>
           x AND NOT (MASK C) = a AND NOT (MASK C)
           \<and> unat (a AND MASK C) \<le> unat (x AND MASK C)
           \<and> unat (x AND MASK C) < unat (a AND MASK C) + w"
    by auto
qed

section \<open>\<^verbatim>\<open>get\<close> and \<^verbatim>\<open>insert\<close> on a sound log\<close>

lemma livebits_zero_iff:
  fixes v :: u64
  assumes "w \<le> 32"
  shows "((ucast ((push_bit w 1 - 1) AND drop_bit off v) :: u32) = 0)
           \<longleftrightarrow> (\<forall>i<w. \<not> bit v (off + i))"
proof -
  have m: "(push_bit w 1 - 1 :: u64) = mask w"
    by (simp add: mask_eq_exp_minus_1 push_bit_eq_mult)
  have b: "bit (ucast (mask w AND drop_bit off v) :: u32) i \<longleftrightarrow> i < w \<and> bit v (off + i)" for i
    using assms by (auto simp: bit_ucast_iff bit_and_iff bit_mask_iff bit_drop_bit_eq dest: bit_imp_le_length)
  show ?thesis
    unfolding m using assms by (auto simp add: bit_eq_iff b)
qed

lemma get_log_absent:
  assumes inv: "redolog_inv C s"
    and none: "\<forall>i<vec_count s. bAddr (vec_chunks s ! i) \<noteq> addr AND NOT (MASK C)"
  shows "get_log C s addr w = Some (Inr None)"
proof -
  from inv_lookup [OF inv, of "addr AND NOT (MASK C)"] none
  have "lookup s (addr AND NOT (MASK C)) = Some (Inr (- 1))" by blast
  then show ?thesis by (simp add: get_log_def)
qed

lemma get_log_present:
  assumes inv: "redolog_inv C s" and w: "w \<le> 8"
    and i: "i < vec_count s" "bAddr (vec_chunks s ! i) = addr AND NOT (MASK C)"
  shows "get_log C s addr w =
           (if \<forall>k<w. \<not> bit (vBytes (vec_chunks s ! i)) (unat (addr AND MASK C) + k)
            then Some (Inr None)
            else if C < unat (addr AND MASK C) + w then Some (Inl OutOfBounds)
            else Some (Inr (Some (take w (drop (unat (addr AND MASK C))
                                            (data (vec_chunks s ! i)))))))"
proof -
  from inv_lookup [OF inv, of "addr AND NOT (MASK C)"] show ?thesis
  proof (elim disjE exE conjE)
    fix i' assume i': "i' < vec_count s" "bAddr (vec_chunks s ! i') = addr AND NOT (MASK C)"
      and l: "lookup s (addr AND NOT (MASK C)) = Some (Inr (int i'))"
    from chunks_wf_distinct [OF inv_index(2) [OF inv] i(1) i'(1)] i(2) i'(2)
    have e: "i' = i" by simp
    have w32: "w \<le> 32" using w by simp
    have c0: "vec_count s \<noteq> 0" using i(1) by simp
    have ne: "int i \<noteq> - 1" by simp
    have lt: "i < length (vec_chunks s)" using i(1) inv_small(1,2) [OF inv] by simp
    show ?thesis
      unfolding get_log_def Let_def livebits_zero_iff [OF w32] l e
      using c0 lt by auto
  next
    assume "\<forall>i<vec_count s. bAddr (vec_chunks s ! i) \<noteq> addr AND NOT (MASK C)"
    with i show ?thesis by blast
  qed
qed

lemma log_byte_at:
  assumes wf: "chunks_wf C s" and i: "i < vec_count s"
    "bAddr (vec_chunks s ! i) = a AND NOT (MASK C)"
  shows "log_byte C s a =
           (if bit (vBytes (vec_chunks s ! i)) (unat (a AND MASK C))
            then Some (data (vec_chunks s ! i) ! unat (a AND MASK C)) else None)"
proof -
  let ?xs = "take (vec_count s) (vec_chunks s)"
  let ?P = "\<lambda>c. bAddr c = a AND NOT (MASK C)"
  from wf have le: "vec_count s \<le> length (vec_chunks s)" by (simp add: chunks_wf_def)
  have l: "length ?xs = vec_count s" using le by simp
  have first: "\<not> ?P (?xs ! j)" if "j < i" for j
  proof
    assume "?P (?xs ! j)"
    with that i have "bAddr (vec_chunks s ! j) = bAddr (vec_chunks s ! i)" by simp
    from chunks_wf_distinct [OF wf _ i(1) this] that i(1) show False by simp
  qed
  have "find ?P ?xs = Some (?xs ! i)"
    unfolding find_Some_iff using i l first by (intro exI [of _ i]) simp
  then show ?thesis using i(1) by (simp add: log_byte_def)
qed

lemma log_byte_none:
  assumes "\<forall>i<vec_count s. bAddr (vec_chunks s ! i) \<noteq> a AND NOT (MASK C)"
  shows "log_byte C s a = None"
proof -
  have "find (\<lambda>c. bAddr c = a AND NOT (MASK C)) (take (vec_count s) (vec_chunks s)) = None"
    unfolding find_None_iff using assms by (auto simp: in_set_conv_nth)
  then show ?thesis by (simp add: log_byte_def)
qed

lemma log_byte_empty: "vec_count s = 0 \<Longrightarrow> log_byte C s a = None"
  by (simp add: log_byte_def)

text \<open>A chunk's payload and mask may change; the index only depends on the bases.\<close>

lemma inv_update_chunk:
  assumes inv: "redolog_inv C s" and i: "i < vec_count s"
    and c: "bAddr c = bAddr (vec_chunks s ! i)" "length (data c) = C"
  shows "redolog_inv C (s\<lparr>vec_chunks := (vec_chunks s)[i := c]\<rparr>)"
proof -
  let ?ch = "(vec_chunks s)[i := c]"
  note sm = inv_small [OF inv]
  have il: "i < length (vec_chunks s)" using i sm(1,2) by simp
  have same: "\<forall>j<vec_count s. bAddr (?ch ! j) = bAddr (vec_chunks s ! j)"
    using c(1) il by (simp add: nth_list_update)
  from inv have dl: "\<forall>c \<in> set (vec_chunks s). length (data c) = C"
    by (simp add: redolog_inv_def)
  have dl': "\<forall>c \<in> set ?ch. length (data c) = C"
  proof
    fix x assume "x \<in> set ?ch"
    then have "x = c \<or> x \<in> set (vec_chunks s)"
      using set_update_subset_insert [of "vec_chunks s" i c] by blast
    with dl c(2) show "length (data x) = C" by blast
  qed
  have ok: "index_ok (ht_tbl s) (ht_ver s) (ht_shift s) ?ch (vec_count s)"
    by (rule index_ok_cong [OF inv_index(1) [OF inv] same])
  have mp: "map bAddr (take (vec_count s) ?ch) = map bAddr (take (vec_count s) (vec_chunks s))"
    using same sm(1,2) by (intro nth_equalityI) simp_all
  from inv_index(2) [OF inv] have wf: "chunks_wf C s" .
  have wf': "chunks_wf C (s\<lparr>vec_chunks := ?ch\<rparr>)"
    unfolding chunks_wf_def
  proof (intro conjI)
    show "vec_count (s\<lparr>vec_chunks := ?ch\<rparr>) \<le> length (vec_chunks (s\<lparr>vec_chunks := ?ch\<rparr>))"
      using sm(1,2) by simp
    show "\<forall>x \<in> set (take (vec_count (s\<lparr>vec_chunks := ?ch\<rparr>)) (vec_chunks (s\<lparr>vec_chunks := ?ch\<rparr>))).
            length (data x) = C \<and> unat (bAddr x) mod C = 0"
    proof
      fix x assume "x \<in> set (take (vec_count (s\<lparr>vec_chunks := ?ch\<rparr>))
                               (vec_chunks (s\<lparr>vec_chunks := ?ch\<rparr>)))"
      then obtain j where j: "j < vec_count s" "x = ?ch ! j"
        using sm(1,2) by (auto simp: in_set_conv_nth)
      have "x \<in> set ?ch" using j sm(1,2) by simp
      with dl' have "length (data x) = C" by blast
      moreover have "unat (bAddr x) mod C = 0"
        using same j chunks_wf_nth(2) [OF wf j(1)] by simp
      ultimately show "length (data x) = C \<and> unat (bAddr x) mod C = 0" by simp
    qed
    show "distinct (map bAddr (take (vec_count (s\<lparr>vec_chunks := ?ch\<rparr>))
                                  (vec_chunks (s\<lparr>vec_chunks := ?ch\<rparr>))))"
      using wf mp by (simp add: chunks_wf_def)
  qed
  show ?thesis
    unfolding redolog_inv_def
    using inv dl' ok wf' by (simp add: redolog_inv_def)
qed

lemma put_bytes_length:
  assumes "off + length val \<le> length d"
  shows "length (put_bytes d off val) = length d"
  using assms by (simp add: put_bytes_def)

lemma put_bytes_nth:
  assumes "off + length val \<le> length d" "n < length d"
  shows "put_bytes d off val ! n
           = (if off \<le> n \<and> n < off + length val then val ! (n - off) else d ! n)"
proof -
  consider "n < off" | "off \<le> n" "n < off + length val" | "off + length val \<le> n"
    by linarith
  then show ?thesis
  proof cases
    case 1
    with assms show ?thesis by (simp add: put_bytes_def nth_append)
  next
    case 2
    then have "n - off < length val" by linarith
    with 2 assms show ?thesis by (simp add: put_bytes_def nth_append)
  next
    case 3
    have l: "length (take off d) = off" using assms(1) by simp
    have a: "\<not> n < off" "\<not> n - off < length val" using 3 by linarith+
    have "put_bytes d off val ! n = (val @ drop (off + length val) d) ! (n - off)"
      unfolding put_bytes_def using a(1) by (simp only: nth_append l if_False)
    also have "\<dots> = drop (off + length val) d ! (n - off - length val)"
      using a(2) by (simp only: nth_append if_False)
    also have "\<dots> = d ! (off + length val + (n - off - length val))"
      using assms(1) by (intro nth_drop)
    also have "off + length val + (n - off - length val) = n" using 3 by simp
    finally show ?thesis using 3 by simp
  qed
qed

lemma mask_bits:
  "bit (push_bit off (push_bit len 1 - 1) :: u64) n \<longleftrightarrow> off \<le> n \<and> n < off + len \<and> n < 64"
proof -
  have m: "(push_bit len 1 - 1 :: u64) = mask len"
    by (simp add: mask_eq_exp_minus_1 push_bit_eq_mult)
  show ?thesis unfolding m by (auto simp: bit_push_bit_iff bit_mask_iff)
qed

lemma mask_bits_exp:
  "bit (push_bit off (2 ^ len - 1) :: u64) n \<longleftrightarrow> off \<le> n \<and> n < off + len \<and> n < 64"
  using mask_bits [of off len n] by (simp add: push_bit_eq_mult)

text \<open>\<^verbatim>\<open>reserve\<close> adds at most an empty chunk: the bytes the log holds stay the same.\<close>

lemma reserve_bytes:
  assumes inv: "redolog_inv C s" and cs: "chunksize_ok C" and al: "unat key mod C = 0"
  shows "(\<exists>e. reserve C junk s key = Some (Inl e))
       \<or> (\<exists>i s1. reserve C junk s key = Some (Inr (i, s1)) \<and> redolog_inv C s1
             \<and> i < vec_count s1 \<and> bAddr (vec_chunks s1 ! i) = key
             \<and> (\<forall>a. log_byte C s1 a = log_byte C s a))"
proof -
  from reserve_ok [OF inv cs al, of junk] show ?thesis
  proof (elim disjE exE conjE)
    fix i assume "i < vec_count s" "bAddr (vec_chunks s ! i) = key"
      "reserve C junk s key = Some (Inr (i, s))"
    with inv show ?thesis by blast
  next
    fix e assume "reserve C junk s key = Some (Inl e)"
    then show ?thesis by blast
  next
    fix s' assume none: "\<forall>i<vec_count s. bAddr (vec_chunks s ! i) \<noteq> key"
      and r: "reserve C junk s key = Some (Inr (vec_count s, s'))"
      and inv': "redolog_inv C s'" and cnt: "vec_count s' = Suc (vec_count s)"
      and old: "\<forall>i<vec_count s. vec_chunks s' ! i = vec_chunks s ! i"
      and new: "bAddr (vec_chunks s' ! vec_count s) = key"
        "vBytes (vec_chunks s' ! vec_count s) = 0"
    note wf = inv_index(2) [OF inv] and wf' = inv_index(2) [OF inv']
    have b: "log_byte C s' a = log_byte C s a" for a
    proof (cases "\<exists>j<vec_count s. bAddr (vec_chunks s ! j) = a AND NOT (MASK C)")
      case True
      then obtain j where j: "j < vec_count s" "bAddr (vec_chunks s ! j) = a AND NOT (MASK C)"
        by blast
      have j': "j < vec_count s'" "bAddr (vec_chunks s' ! j) = a AND NOT (MASK C)"
        using j old cnt by simp_all
      show ?thesis
        unfolding log_byte_at [OF wf j] log_byte_at [OF wf' j'] using old j(1) by simp
    next
      case False
      then have n: "log_byte C s a = None" by (intro log_byte_none) blast
      show ?thesis
      proof (cases "a AND NOT (MASK C) = key")
        case True
        have i': "vec_count s < vec_count s'"
          "bAddr (vec_chunks s' ! vec_count s) = a AND NOT (MASK C)"
          using cnt new(1) True by simp_all
        show ?thesis unfolding n log_byte_at [OF wf' i'] by (simp add: new(2))
      next
        case ne: False
        have "\<forall>j<vec_count s'. bAddr (vec_chunks s' ! j) \<noteq> a AND NOT (MASK C)"
        proof (intro allI impI)
          fix j assume "j < vec_count s'"
          then consider "j < vec_count s" | "j = vec_count s" using cnt by linarith
          then show "bAddr (vec_chunks s' ! j) \<noteq> a AND NOT (MASK C)"
          proof cases
            case 1 with False old show ?thesis by simp
          next
            case 2 with new(1) ne show ?thesis by simp
          qed
        qed
        then have "log_byte C s' a = None" by (rule log_byte_none)
        with n show ?thesis by simp
      qed
    qed
    have "reserve C junk s key = Some (Inr (vec_count s, s')) \<and> redolog_inv C s'
             \<and> vec_count s < vec_count s' \<and> bAddr (vec_chunks s' ! vec_count s) = key
             \<and> (\<forall>a. log_byte C s' a = log_byte C s a)"
      using r inv' cnt new(1) b by simp
    then show ?thesis by blast
  qed
qed

text \<open>
  \<^verbatim>\<open>insert\<close> of a naturally aligned scalar returns; unless it faults (the index cannot
  grow any more), the log is sound again and holds the new bytes over the old ones.
\<close>

lemma insert_log_ok:
  assumes inv: "redolog_inv C s" and cs: "chunksize_ok C" and sc: "scalar_ok (addr, val)"
  shows "(\<exists>e. insert_log C junk s addr val = Some (Inl e))
       \<or> (\<exists>s'. insert_log C junk s addr val = Some (Inr s') \<and> redolog_inv C s'
             \<and> (\<forall>a. log_byte C s' a = overwrite (addr, val) (log_byte C s) a))"
proof -
  let ?key = "addr AND NOT (MASK C)" and ?off = "unat (addr AND MASK C)"
  let ?w = "length val"
  from sc have w: "?w \<in> {1, 2, 4, 8}" and nat_al: "unat addr mod ?w = 0"
    by (simp_all add: scalar_ok_def)
  note sp = addr_split [OF cs, of addr]
  have fit: "?off + ?w \<le> C" by (rule scalar_fits [OF cs w nat_al])
  have C64: "C \<le> 64" using cs by (auto simp: chunksize_ok_def)
  from reserve_bytes [OF inv cs sp(1), of junk] show ?thesis
  proof (elim disjE exE conjE)
    fix e assume "reserve C junk s ?key = Some (Inl e)"
    then have "insert_log C junk s addr val = Some (Inl e)"
      by (simp add: insert_log_def)
    then show ?thesis by blast
  next
    fix i s1 assume r: "reserve C junk s ?key = Some (Inr (i, s1))"
      and inv1: "redolog_inv C s1" and i: "i < vec_count s1"
      and base: "bAddr (vec_chunks s1 ! i) = ?key"
      and same: "\<forall>a. log_byte C s1 a = log_byte C s a"
    let ?c = "vec_chunks s1 ! i"
    let ?c2 = "?c\<lparr>data := put_bytes (data ?c) ?off val,
                  vBytes := vBytes ?c OR push_bit ?off (push_bit ?w 1 - 1)\<rparr>"
    let ?s' = "s1\<lparr>vec_chunks := (vec_chunks s1)[i := ?c2]\<rparr>"
    note sm = inv_small [OF inv1]
    have il: "i < length (vec_chunks s1)" using i sm(1,2) by simp
    have "i < 2 ^ 31" using i inv_count_small [OF inv1] by simp
    then have ii: "int_of_size_t i = int i" by (rule int_of_size_t_small)
    from inv1 have "\<forall>c \<in> set (vec_chunks s1). length (data c) = C"
      by (simp add: redolog_inv_def)
    with il have len: "length (data ?c) = C" by simp
    have fit': "?off + ?w \<le> length (data ?c)" using fit len by simp
    have ins: "insert_log C junk s addr val = Some (Inr ?s')"
      using r il fit by (simp add: insert_log_def Let_def ii)
    have len2: "length (data ?c2) = C"
      using put_bytes_length [OF fit'] len by simp
    have inv': "redolog_inv C ?s'"
      by (rule inv_update_chunk [OF inv1 i _ len2]) simp
    note wf1 = inv_index(2) [OF inv1] and wf' = inv_index(2) [OF inv']
    have at: "vec_chunks ?s' ! i = ?c2" using il by simp
    have i': "i < vec_count ?s'" using i by simp
    have bi: "bAddr (vec_chunks ?s' ! i) = ?key" using il base by simp
    have b: "log_byte C ?s' a = overwrite (addr, val) (log_byte C s) a" for a
    proof -
      let ?oa = "unat (a AND MASK C)"
      have oa: "?oa < C" by (rule addr_split(3) [OF cs])
      have oal: "?oa < length (data ?c)" using oa len by simp
      have oa64: "?oa < 64" using oa C64 by simp
      show ?thesis
      proof (cases "a AND NOT (MASK C) = ?key")
        case True
        have k1: "bAddr (vec_chunks s1 ! i) = a AND NOT (MASK C)" using base True by simp
        have k': "bAddr (vec_chunks ?s' ! i) = a AND NOT (MASK C)"
          unfolding at using base True by simp
        have in_iff: "unat (a - addr) < ?w \<longleftrightarrow> ?off \<le> ?oa \<and> ?oa < ?off + ?w"
          using addr_within(1) [OF cs fit, of a] True by simp
        show ?thesis
        proof (cases "unat (a - addr) < ?w")
          case in_w: True
          then have rng: "?off \<le> ?oa" "?oa < ?off + ?w" using in_iff by simp_all
          from addr_within(2) [OF cs fit in_w] have d: "?oa - ?off = unat (a - addr)" by simp
          have "bit (vBytes ?c2) ?oa"
            using rng oa64 by (simp add: bit_or_iff mask_bits mask_bits_exp)
          moreover have "data ?c2 ! ?oa = val ! unat (a - addr)"
            using put_bytes_nth [OF fit' oal] rng d by simp
          ultimately have "log_byte C ?s' a = Some (val ! unat (a - addr))"
            unfolding log_byte_at [OF wf' i' k'] at by simp
          with in_w show ?thesis by (simp add: overwrite_def)
        next
          case out: False
          then have nr: "\<not> (?off \<le> ?oa \<and> ?oa < ?off + ?w)" using in_iff by simp
          have "bit (vBytes ?c2) ?oa = bit (vBytes ?c) ?oa"
            using nr by (auto simp add: bit_or_iff mask_bits mask_bits_exp)
          moreover have "data ?c2 ! ?oa = data ?c ! ?oa"
            using put_bytes_nth [OF fit' oal] nr by simp
          ultimately have "log_byte C ?s' a = log_byte C s1 a"
            unfolding log_byte_at [OF wf' i' k'] log_byte_at [OF wf1 i k1] at by simp
          with out same show ?thesis by (simp add: overwrite_def)
        qed
      next
        case ne: False
        have out: "\<not> unat (a - addr) < ?w"
          using addr_within(1) [OF cs fit, of a] ne by simp
        have "log_byte C ?s' a = log_byte C s1 a"
        proof (cases "\<exists>j<vec_count s1. bAddr (vec_chunks s1 ! j) = a AND NOT (MASK C)")
          case True
          then obtain j where j: "j < vec_count s1"
            "bAddr (vec_chunks s1 ! j) = a AND NOT (MASK C)"
            by blast
          have ji: "j \<noteq> i" using j(2) base ne by auto
          have e: "vec_chunks ?s' ! j = vec_chunks s1 ! j" using ji by simp
          have j': "j < vec_count ?s'" "bAddr (vec_chunks ?s' ! j) = a AND NOT (MASK C)"
            using j e by simp_all
          show ?thesis
            unfolding log_byte_at [OF wf' j'] log_byte_at [OF wf1 j] e by simp
        next
          case False
          then have n1: "log_byte C s1 a = None" by (intro log_byte_none) blast
          have "\<forall>j<vec_count ?s'. bAddr (vec_chunks ?s' ! j) \<noteq> a AND NOT (MASK C)"
          proof (intro allI impI)
            fix j assume j: "j < vec_count ?s'"
            show "bAddr (vec_chunks ?s' ! j) \<noteq> a AND NOT (MASK C)"
            proof (cases "j = i")
              case True
              with bi ne show ?thesis by simp
            next
              case False
              then have "vec_chunks ?s' ! j = vec_chunks s1 ! j" by simp
              with \<open>\<not> (\<exists>j<vec_count s1. bAddr (vec_chunks s1 ! j) = a AND NOT (MASK C))\<close> j
              show ?thesis by simp
            qed
          qed
          then have "log_byte C ?s' a = None" by (rule log_byte_none)
          with n1 show ?thesis by simp
        qed
        with out same show ?thesis by (simp add: overwrite_def)
      qed
    qed
    from ins inv' b show ?thesis by blast
  qed
qed

text \<open>Every log the constructor, \<^verbatim>\<open>insert\<close> and \<^verbatim>\<open>clear\<close> produce is sound.\<close>

lemma reachable_inv:
  assumes "reachable C junk s" and cs: "chunksize_ok C"
  shows "redolog_inv C s"
  using assms(1)
proof (induction rule: reachable.induct)
  case (constructed cap s)
  then show ?case by (intro init_inv(1) [OF _ _ _ cs])
next
  case (inserted s addr val s')
  from insert_log_ok [OF inserted.IH cs inserted.hyps(2), of junk] inserted.hyps(3)
  show ?case by auto
next
  case (cleared s)
  then show ?case by (intro clear_inv(1))
qed

lemma reachable_chunks_wf:
  assumes "reachable C junk s" "chunksize_ok C"
  shows "chunks_wf C s"
  using reachable_inv [OF assms] by (rule inv_index(2))

lemma insert_all_ok:
  assumes cs: "chunksize_ok C"
  shows "redolog_inv C s \<Longrightarrow> \<forall>wr \<in> set ws. scalar_ok wr \<Longrightarrow>
     (\<exists>e. insert_all C junk s ws = Some (Inl e))
     \<or> (\<exists>s'. insert_all C junk s ws = Some (Inr s') \<and> redolog_inv C s'
           \<and> (\<forall>a. log_byte C s' a = fold overwrite ws (log_byte C s) a))"
proof (induction ws arbitrary: s)
  case Nil
  then show ?case by simp
next
  case (Cons wr ws)
  from Cons.prems(2) have sc: "scalar_ok (fst wr, snd wr)" and rest: "\<forall>wr \<in> set ws. scalar_ok wr"
    by simp_all
  from insert_log_ok [OF Cons.prems(1) cs sc, of junk] show ?case
  proof (elim disjE exE conjE)
    fix e assume "insert_log C junk s (fst wr) (snd wr) = Some (Inl e)"
    then show ?thesis by simp
  next
    fix s1 assume i: "insert_log C junk s (fst wr) (snd wr) = Some (Inr s1)"
      and inv1: "redolog_inv C s1"
      and b: "\<forall>a. log_byte C s1 a = overwrite (fst wr, snd wr) (log_byte C s) a"
    then have b': "log_byte C s1 = overwrite wr (log_byte C s)" by (intro ext) simp
    from Cons.IH [OF inv1 rest] i show ?thesis by (simp add: b')
  qed
qed

lemma take_drop_map_nth:
  assumes "off + w \<le> length d"
  shows "take w (drop off d) = map (\<lambda>k. d ! (off + k)) [0..<w]"
  using assms by (intro nth_equalityI) simp_all

text \<open>A \<^verbatim>\<open>get\<close> all of whose bytes the log holds returns them.\<close>

lemma get_log_bytes:
  assumes inv: "redolog_inv C s" and cs: "chunksize_ok C"
    and w: "w \<in> {1, 2, 4, 8}" and al: "unat addr mod w = 0"
    and all: "\<forall>k<w. log_byte C s (addr + of_nat k) \<noteq> None"
  shows "get_log C s addr w
           = Some (Inr (Some (map (\<lambda>k. the (log_byte C s (addr + of_nat k))) [0..<w])))"
proof -
  let ?key = "addr AND NOT (MASK C)" and ?off = "unat (addr AND MASK C)"
  have w0: "0 < w" and w8: "w \<le> 8" using w by auto
  have fit: "?off + w \<le> C" by (rule scalar_fits [OF cs w al])
  from all w0 have "log_byte C s (addr + of_nat 0) \<noteq> None" by blast
  then have "log_byte C s addr \<noteq> None" by simp
  have "\<exists>i<vec_count s. bAddr (vec_chunks s ! i) = ?key"
  proof (rule ccontr)
    assume "\<not> (\<exists>i<vec_count s. bAddr (vec_chunks s ! i) = ?key)"
    then have "\<forall>i<vec_count s. bAddr (vec_chunks s ! i) \<noteq> ?key" by simp
    then have "log_byte C s addr = None" by (rule log_byte_none)
    with \<open>log_byte C s addr \<noteq> None\<close> show False by simp
  qed
  then obtain i where i: "i < vec_count s" "bAddr (vec_chunks s ! i) = ?key" by blast
  let ?c = "vec_chunks s ! i"
  note wf = inv_index(2) [OF inv]
  have len: "length (data ?c) = C" by (rule chunks_wf_nth(1) [OF wf i(1)])
  have byte: "log_byte C s (addr + of_nat k)
                = (if bit (vBytes ?c) (?off + k) then Some (data ?c ! (?off + k)) else None)"
    if k: "k < w" for k
  proof -
    have lt: "?off + k < C" using k fit by simp
    note ab = addr_byte [OF cs lt]
    have "bAddr ?c = (addr + of_nat k) AND NOT (MASK C)" using i(2) ab(1) by simp
    from log_byte_at [OF wf i(1) this] show ?thesis by (simp only: ab(2))
  qed
  have valid: "bit (vBytes ?c) (?off + k)" if "k < w" for k
    using byte [OF that] all that by (auto split: if_splits)
  have val: "the (log_byte C s (addr + of_nat k)) = data ?c ! (?off + k)" if "k < w" for k
    using byte [OF that] valid [OF that] by simp
  have some: "\<not> (\<forall>k<w. \<not> bit (vBytes ?c) (?off + k))" using valid w0 by blast
  have nf: "\<not> C < ?off + w" using fit by simp
  have "get_log C s addr w = Some (Inr (Some (take w (drop ?off (data ?c)))))"
    unfolding get_log_present [OF inv w8 i] using some nf by (simp only: if_False)
  also have "take w (drop ?off (data ?c)) = map (\<lambda>k. data ?c ! (?off + k)) [0..<w]"
    using fit len by (intro take_drop_map_nth) simp
  also have "\<dots> = map (\<lambda>k. the (log_byte C s (addr + of_nat k))) [0..<w]"
    using val by (intro map_cong) simp_all
  finally show ?thesis .
qed

lemma overwrite_self:
  assumes "k < length val" "length val \<le> 8"
  shows "overwrite (addr, val) m (addr + of_nat k) = Some (val ! k)"
proof -
  have "k < 2 ^ LENGTH(64)" using assms by simp
  then have "unat (of_nat k :: u64) = k" by (simp add: of_nat_inverse)
  then show ?thesis using assms(1) by (simp add: overwrite_def)
qed

lemma last_inserted_empty:
  "vec_count s = 0 \<Longrightarrow> fold overwrite ws (log_byte C s) = last_inserted ws"
proof -
  assume "vec_count s = 0"
  then have "log_byte C s = (\<lambda>_. None)" by (intro ext) (rule log_byte_empty)
  then show ?thesis by (simp add: last_inserted_def)
qed

section \<open>Two inserts into a fresh log\<close>

lemma replicate_numeral: "replicate (numeral k) x = x # replicate (pred_numeral k) x"
  by (simp add: numeral_eq_Suc)

lemma upt_small: "[0..<2] = [0, Suc 0]" "[0..<4] = [0, Suc 0, 2, 3]"
  by code_simp+

lemma malloc_chunks_1: "malloc_chunks 32 j (Suc 0) = [uninit 32 (j (Suc 0) 0)]"
  by (simp add: malloc_chunks_def sizeof_chunk_def)

lemma malloc_chunks_2:
  "malloc_chunks 32 j 2 = [uninit 32 (j 2 0), uninit 32 (j 2 (Suc 0))]"
  by (simp add: malloc_chunks_def sizeof_chunk_def upt_small)

lemma malloc_chunks_4:
  "malloc_chunks 32 j 4
     = [uninit 32 (j 4 0), uninit 32 (j 4 (Suc 0)), uninit 32 (j 4 2), uninit 32 (j 4 3)]"
  by (simp add: malloc_chunks_def sizeof_chunk_def upt_small)

lemma ex_log0_init: "redolog_init 32 j 1 = Inr (ex_log0 j)"
  by (simp add: redolog_init_def init_loop.simps new_index_tbl_def doubleIndexLength_def
        shl_int_1_def SPILL_FACTOR_def ex_log0_def malloc_chunks_1)

lemma ex_log1_insert: "insert_log 32 j (ex_log0 j) 0x1000 [7] = Some (Inr (ex_log1 j))"
proof -
  have h: "hash (ex_log0 j) 0x1000 = Suc 0"
    by (simp add: hash_def mix13_hash_def ex_log0_def)
  have m: "(0x1000::u64) AND NOT (MASK 32) = 0x1000" "(0x1000::u64) AND MASK 32 = 0"
    by (simp_all add: MASK_def)
  have p: "probe (ex_log0 j) 0x1000 (Suc 0) = Some (Inr (Unused (Suc 0)))"
    by (subst probe.simps) (simp add: ex_log0_def index_t_init_def replicate_numeral)
  have d: "drop (Suc 0) (map f [0..<32]) = map f [Suc 0..<32]" for f :: "nat \<Rightarrow> u8"
    by (simp add: drop_map)
  show ?thesis
    apply (simp add: insert_log_def reserve_def m h p Let_def)
    apply (simp add: ex_log0_def ex_log1_def Let_def resize_def SPILL_FACTOR_def
        malloc_chunks_2 index_t_init_def uninit_def
        int_of_size_t_def put_bytes_def replicate_numeral d m)
    done
qed

lemma ex_get1: "get_log 32 (ex_log1 j) 0x1000 2 = Some (Inr (Some [7, rData (j 1 0) 1]))"
proof -
  have h: "hash (ex_log1 j) 0x1000 = Suc 0"
    by (simp add: hash_def mix13_hash_def ex_log1_def)
  have m: "(0x1000::u64) AND NOT (MASK 32) = 0x1000" "(0x1000::u64) AND MASK 32 = 0"
    by (simp_all add: MASK_def)
  have p: "probe (ex_log1 j) 0x1000 (Suc 0) = Some (Inr (Found 0))"
    by (subst probe.simps) (simp add: ex_log1_def index_t_init_def)
  have t: "take (Suc 0) (map f [Suc 0..<32]) = [f (Suc 0)]" for f :: "nat \<Rightarrow> u8"
    by (simp add: take_map upt_rec)
  show ?thesis
    by (simp add: get_log_def lookup_def m h p Let_def int_of_size_t_def)
       (simp add: ex_log1_def t)
qed

lemma ex_log2_insert:
  "insert_log 32 j (ex_log1 j) 0x2004 [1, 2, 3, 4] = Some (Inr (ex_log2 j))"
proof -
  have h: "hash (ex_log1 j) 0x2000 = 2"
    by (simp add: hash_def mix13_hash_def ex_log1_def)
  have m: "(0x2004::u64) AND NOT (MASK 32) = 0x2000" "(0x2004::u64) AND MASK 32 = 4"
    by (simp_all add: MASK_def)
  have p: "probe (ex_log1 j) 0x2000 2 = Some (Inr (Unused 2))"
    by (subst probe.simps) (simp add: ex_log1_def index_t_init_def)
  have d: "take 4 (map f [0..<32]) = map f [0..<4]" "drop 8 (map f [0..<32]) = map f [8..<32]"
    for f :: "nat \<Rightarrow> u8"
    by (simp_all add: take_map drop_map)
  show ?thesis
    apply (simp add: insert_log_def reserve_def m h p Let_def)
    apply (simp add: ex_log1_def ex_log2_def Let_def resize_def SPILL_FACTOR_def rebuild_def
        doubleIndexLength_def shl_int_1_def new_index_tbl_def rebuild_loop.simps
        next_unused.simps hash_def mix13_hash_def index_t_init_def uninit_def malloc_chunks_4
        int_of_size_t_def put_bytes_def replicate_numeral d m)
    done
qed

section \<open>Properties of the redo log\<close>

lemma ex_cs: "chunksize_ok 32"
  by (simp add: chunksize_ok_def)

lemma ex_reachable:
  "reachable 32 j (ex_log0 j)" "reachable 32 j (ex_log1 j)" "reachable 32 j (ex_log2 j)"
proof -
  show r0: "reachable 32 j (ex_log0 j)"
    by (rule reachable.constructed [OF ex_log0_init]) (simp_all add: SPILL_FACTOR_def)
  show r1: "reachable 32 j (ex_log1 j)"
    by (rule reachable.inserted [OF r0 _ ex_log1_insert]) (simp add: scalar_ok_def)
  show "reachable 32 j (ex_log2 j)"
    by (rule reachable.inserted [OF r1 _ ex_log2_insert]) (simp add: scalar_ok_def)
qed

lemma ex_inv:
  "redolog_inv 32 (ex_log0 j)" "redolog_inv 32 (ex_log1 j)" "redolog_inv 32 (ex_log2 j)"
  by (rule reachable_inv [OF _ ex_cs], rule ex_reachable)+

lemma ex_log1_fields:
  "vec_count (ex_log1 j) = Suc 0" "bAddr (vec_chunks (ex_log1 j) ! 0) = 0x1000"
  "vBytes (vec_chunks (ex_log1 j) ! 0) = 1"
  "data (vec_chunks (ex_log1 j) ! 0) = 7 # map (rData (j (Suc 0) 0)) [Suc 0..<32]"
  by (simp_all add: ex_log1_def)

lemma ex_masks:
  "(0x1000::u64) AND NOT (MASK 32) = 0x1000" "(0x1000::u64) AND MASK 32 = 0"
  "(0x2000::u64) AND NOT (MASK 32) = 0x2000"
  "(0x1004::u64) AND NOT (MASK 32) = 0x1000" "unat ((0x1004::u64) AND MASK 32) = 4"
  by (simp_all add: MASK_def)

text \<open>
  Claim C1 (as amended).  On a log that satisfies the invariant of the class (every log
  the constructor, \<^verbatim>\<open>insert\<close> and \<^verbatim>\<open>clear\<close> produce does), \<^verbatim>\<open>get(addr, outVal)\<close> for a
  scalar of 1, 2, 4 or 8 bytes always returns.  It returns false when no chunk in use
  has the aligned base of \<open>addr\<close>.  When chunk \<open>i\<close> has that base, it returns false
  exactly when none of the requested bytes is marked valid in the mask of chunk \<open>i\<close>,
  and otherwise true with the \<open>w\<close> payload bytes of chunk \<open>i\<close> at the offset of
  \<open>addr\<close> (a scalar that would run over the end of the payload is a fault; a naturally
  aligned one never does).
\<close>

theorem get_log_cases:
  assumes inv: "redolog_inv C s" and cs: "chunksize_ok C" and w: "w \<in> {1, 2, 4, 8}"
  shows "((\<forall>i<vec_count s. bAddr (vec_chunks s ! i) \<noteq> addr AND NOT (MASK C)) \<longrightarrow>
            get_log C s addr w = Some (Inr None))
       \<and> (\<forall>i<vec_count s. bAddr (vec_chunks s ! i) = addr AND NOT (MASK C) \<longrightarrow>
            get_log C s addr w =
              (if \<forall>k<w. \<not> bit (vBytes (vec_chunks s ! i)) (unat (addr AND MASK C) + k)
               then Some (Inr None)
               else if C < unat (addr AND MASK C) + w then Some (Inl OutOfBounds)
               else Some (Inr (Some (take w (drop (unat (addr AND MASK C))
                                               (data (vec_chunks s ! i))))))))
       \<and> (unat addr mod w = 0 \<longrightarrow> unat (addr AND MASK C) + w \<le> C)
       \<and> (\<exists>r. get_log C s addr w = Some r)"
proof -
  have w8: "w \<le> 8" using w by auto
  have a: "(\<forall>i<vec_count s. bAddr (vec_chunks s ! i) \<noteq> addr AND NOT (MASK C)) \<longrightarrow>
            get_log C s addr w = Some (Inr None)"
    by (intro impI) (rule get_log_absent [OF inv])
  have b: "\<forall>i<vec_count s. bAddr (vec_chunks s ! i) = addr AND NOT (MASK C) \<longrightarrow>
            get_log C s addr w =
              (if \<forall>k<w. \<not> bit (vBytes (vec_chunks s ! i)) (unat (addr AND MASK C) + k)
               then Some (Inr None)
               else if C < unat (addr AND MASK C) + w then Some (Inl OutOfBounds)
               else Some (Inr (Some (take w (drop (unat (addr AND MASK C))
                                               (data (vec_chunks s ! i)))))))"
    by (intro allI impI) (rule get_log_present [OF inv w8])
  have c: "unat addr mod w = 0 \<longrightarrow> unat (addr AND MASK C) + w \<le> C"
    by (intro impI) (rule scalar_fits [OF cs w])
  have d: "\<exists>r. get_log C s addr w = Some r"
  proof (cases "\<exists>i<vec_count s. bAddr (vec_chunks s ! i) = addr AND NOT (MASK C)")
    case True
    then obtain i where "i < vec_count s" "bAddr (vec_chunks s ! i) = addr AND NOT (MASK C)"
      by blast
    from get_log_present [OF inv w8 this] show ?thesis by simp
  next
    case False
    then have "get_log C s addr w = Some (Inr None)" by (intro get_log_absent [OF inv]) blast
    then show ?thesis by simp
  qed
  from a b c d show ?thesis by (intro conjI)
qed

theorem get_log_cases_witness:
  "redolog_inv 32 (ex_log0 ex_junk) \<and> redolog_inv 32 (ex_log1 ex_junk)
   \<and> get_log 32 (ex_log0 ex_junk) 0x1000 2 = Some (Inr None)
   \<and> get_log 32 (ex_log1 ex_junk) 0x2000 2 = Some (Inr None)
   \<and> get_log 32 (ex_log1 ex_junk) 0x1000 1 = Some (Inr (Some [7]))
   \<and> get_log 32 (ex_log1 ex_junk) 0x1004 4 = Some (Inr None)"
proof -
  let ?s0 = "ex_log0 ex_junk" and ?s1 = "ex_log1 ex_junk"
  have w: "(1::nat) \<in> {1, 2, 4, 8}" "(2::nat) \<in> {1, 2, 4, 8}" "(4::nat) \<in> {1, 2, 4, 8}"
    by simp_all
  have n0: "\<forall>i<vec_count ?s0. bAddr (vec_chunks ?s0 ! i) \<noteq> 0x1000 AND NOT (MASK 32)"
    by (simp add: ex_log0_def)
  have n2: "\<forall>i<vec_count ?s1. bAddr (vec_chunks ?s1 ! i) \<noteq> 0x2000 AND NOT (MASK 32)"
    by (simp add: ex_log1_fields ex_masks)
  have i0: "0 < vec_count ?s1" by (simp add: ex_log1_fields)
  have b1: "bAddr (vec_chunks ?s1 ! 0) = 0x1000 AND NOT (MASK 32)"
    by (simp add: ex_log1_fields ex_masks)
  have b4: "bAddr (vec_chunks ?s1 ! 0) = 0x1004 AND NOT (MASK 32)"
    by (simp add: ex_log1_fields ex_masks)
  have nb: "\<not> bit (1::u64) (4 + k)" for k by (simp add: bit_1_iff)
  have g0: "get_log 32 ?s0 0x1000 2 = Some (Inr None)"
    using get_log_cases [OF ex_inv(1) ex_cs w(2), of ex_junk "0x1000", THEN conjunct1] n0
    by (rule mp)
  have g2: "get_log 32 ?s1 0x2000 2 = Some (Inr None)"
    using get_log_cases [OF ex_inv(2) ex_cs w(2), of ex_junk "0x2000", THEN conjunct1] n2
    by (rule mp)
  from get_log_cases [OF ex_inv(2) ex_cs w(1), of ex_junk "0x1000",
      THEN conjunct2, THEN conjunct1, THEN spec, THEN mp, OF i0, THEN mp, OF b1]
  have g1: "get_log 32 ?s1 0x1000 1 = Some (Inr (Some [7]))"
    by (simp add: ex_log1_fields ex_masks)
  from get_log_cases [OF ex_inv(2) ex_cs w(3), of ex_junk "0x1004",
      THEN conjunct2, THEN conjunct1, THEN spec, THEN mp, OF i0, THEN mp, OF b4]
  have g4: "get_log 32 ?s1 0x1004 4 = Some (Inr None)"
    by (simp add: ex_log1_fields ex_masks nb)
  from ex_inv(1) ex_inv(2) g0 g2 g1 g4 show ?thesis by (intro conjI)
qed

text \<open>
  The claim as stated (true only if every requested byte is valid) fails: after a 1-byte
  insert at \<open>0x1000\<close> into a fresh log, a 2-byte \<^verbatim>\<open>get\<close> at \<open>0x1000\<close> returns true
  although the second byte is not marked valid; the second byte it hands out is the one
  \<^verbatim>\<open>malloc\<close> left in the payload (lemma \<open>ex_get1\<close>, for any content of the heap).
\<close>

theorem get_log_partly_valid_counterexample:
  "redolog_init 32 ex_junk 1 = Inr (ex_log0 ex_junk)
   \<and> insert_log 32 ex_junk (ex_log0 ex_junk) 0x1000 [7] = Some (Inr (ex_log1 ex_junk))
   \<and> bAddr (vec_chunks (ex_log1 ex_junk) ! 0) = 0x1000 AND NOT (MASK 32)
   \<and> \<not> bit (vBytes (vec_chunks (ex_log1 ex_junk) ! 0))
            (unat ((0x1000::u64) AND MASK 32) + 1)
   \<and> get_log 32 (ex_log1 ex_junk) 0x1000 2
       = Some (Inr (Some [7, rData (ex_junk 1 0) 1]))"
proof -
  have 1: "bAddr (vec_chunks (ex_log1 ex_junk) ! 0) = 0x1000 AND NOT (MASK 32)"
    by (simp add: ex_log1_fields ex_masks)
  have 2: "\<not> bit (vBytes (vec_chunks (ex_log1 ex_junk) ! 0))
               (unat ((0x1000::u64) AND MASK 32) + 1)"
    by (simp add: ex_log1_fields ex_masks bit_1_iff)
  have 3: "get_log 32 (ex_log1 ex_junk) 0x1000 2
             = Some (Inr (Some [7, rData (ex_junk 1 0) 1]))"
    using ex_get1 [of ex_junk] by simp
  from ex_log0_init [of ex_junk] ex_log1_insert [of ex_junk] 1 2 3 show ?thesis
    by (intro conjI)
qed

text \<open>
  Claim C4.  Take a sound log (every log the constructor, \<^verbatim>\<open>insert\<close> and \<^verbatim>\<open>clear\<close>
  produce is one) and any sequence of inserts of naturally aligned scalars of 1, 2, 4 or
  8 bytes.  The sequence returns; unless an insert faults (the index cannot grow beyond
  \<open>2 ^ 30\<close> entries), a following \<^verbatim>\<open>get\<close> of an aligned scalar, every byte of which the
  log holds, returns true with, for each byte, the value most recently inserted for that
  byte (\<open>fold overwrite\<close> lays the inserts, in order, over the bytes the log held
  before; for a log that was empty, after the constructor or \<^verbatim>\<open>clear\<close>, these are the
  inserts alone).  In particular \<^verbatim>\<open>insert(a, v)\<close> followed by \<^verbatim>\<open>get(a)\<close> yields \<open>v\<close>.
\<close>

theorem insert_get_round_trip:
  assumes inv: "redolog_inv C s" and cs: "chunksize_ok C"
    and ws: "\<forall>wr \<in> set ws. scalar_ok wr"
  shows "(\<exists>r. insert_all C junk s ws = Some r)
       \<and> (\<forall>s'. insert_all C junk s ws = Some (Inr s') \<longrightarrow>
             redolog_inv C s'
             \<and> (\<forall>addr w. w \<in> {1, 2, 4, 8} \<and> unat addr mod w = 0
                   \<and> (\<forall>k<w. fold overwrite ws (log_byte C s) (addr + of_nat k) \<noteq> None) \<longrightarrow>
                   get_log C s' addr w =
                     Some (Inr (Some (map (\<lambda>k. the (fold overwrite ws (log_byte C s)
                                                      (addr + of_nat k))) [0..<w])))))
       \<and> (vec_count s = 0 \<longrightarrow> fold overwrite ws (log_byte C s) = last_inserted ws)
       \<and> (\<forall>addr val. scalar_ok (addr, val) \<longrightarrow>
             (\<exists>r. insert_log C junk s addr val = Some r)
             \<and> (\<forall>s'. insert_log C junk s addr val = Some (Inr s') \<longrightarrow>
                   get_log C s' addr (length val) = Some (Inr (Some val))))"
proof -
  note all = insert_all_ok [OF cs inv ws, of junk]
  have A: "\<exists>r. insert_all C junk s ws = Some r" using all by blast
  have B: "redolog_inv C s'
           \<and> (\<forall>addr w. w \<in> {1, 2, 4, 8} \<and> unat addr mod w = 0
                 \<and> (\<forall>k<w. fold overwrite ws (log_byte C s) (addr + of_nat k) \<noteq> None) \<longrightarrow>
                 get_log C s' addr w =
                   Some (Inr (Some (map (\<lambda>k. the (fold overwrite ws (log_byte C s)
                                                    (addr + of_nat k))) [0..<w]))))"
    if r: "insert_all C junk s ws = Some (Inr s')" for s'
  proof -
    from all r have inv': "redolog_inv C s'"
      and b: "\<forall>a. log_byte C s' a = fold overwrite ws (log_byte C s) a"
      by simp_all
    from b have e: "log_byte C s' = fold overwrite ws (log_byte C s)" by (intro ext) simp
    have "get_log C s' addr w =
            Some (Inr (Some (map (\<lambda>k. the (fold overwrite ws (log_byte C s)
                                                    (addr + of_nat k))) [0..<w])))"
      if "w \<in> {1, 2, 4, 8}" "unat addr mod w = 0"
        "\<forall>k<w. fold overwrite ws (log_byte C s) (addr + of_nat k) \<noteq> None" for addr w
      using get_log_bytes [OF inv' cs that(1,2)] that(3) unfolding e by simp
    then have "\<forall>addr w. w \<in> {1, 2, 4, 8} \<and> unat addr mod w = 0
                 \<and> (\<forall>k<w. fold overwrite ws (log_byte C s) (addr + of_nat k) \<noteq> None) \<longrightarrow>
                 get_log C s' addr w =
                   Some (Inr (Some (map (\<lambda>k. the (fold overwrite ws (log_byte C s)
                                                    (addr + of_nat k))) [0..<w])))"
      by (intro allI impI) (elim conjE)
    with inv' show ?thesis by (intro conjI)
  qed
  have Cc: "vec_count s = 0 \<longrightarrow> fold overwrite ws (log_byte C s) = last_inserted ws"
    by (intro impI) (rule last_inserted_empty)
  have D: "(\<exists>r. insert_log C junk s addr val = Some r)
           \<and> (\<forall>s'. insert_log C junk s addr val = Some (Inr s') \<longrightarrow>
                 get_log C s' addr (length val) = Some (Inr (Some val)))"
    if sc: "scalar_ok (addr, val)" for addr val
  proof -
    note one = insert_log_ok [OF inv cs sc, of junk]
    from sc have w: "length val \<in> {1, 2, 4, 8}" and al: "unat addr mod length val = 0"
      by (simp_all add: scalar_ok_def)
    have w8: "length val \<le> 8" using w by auto
    have t: "\<exists>r. insert_log C junk s addr val = Some r" using one by blast
    have g: "get_log C s' addr (length val) = Some (Inr (Some val))"
      if r: "insert_log C junk s addr val = Some (Inr s')" for s'
    proof -
      from one r have inv': "redolog_inv C s'"
        and b: "\<forall>a. log_byte C s' a = overwrite (addr, val) (log_byte C s) a"
        by simp_all
      have byte: "log_byte C s' (addr + of_nat k) = Some (val ! k)" if "k < length val" for k
        using b overwrite_self [OF that w8] by simp
      then have "\<forall>k<length val. log_byte C s' (addr + of_nat k) \<noteq> None" by simp
      from get_log_bytes [OF inv' cs w al this]
      have "get_log C s' addr (length val)
              = Some (Inr (Some (map (\<lambda>k. the (log_byte C s' (addr + of_nat k)))
                                   [0..<length val])))" .
      also have "map (\<lambda>k. the (log_byte C s' (addr + of_nat k))) [0..<length val] = val"
        using byte by (intro nth_equalityI) simp_all
      finally show ?thesis .
    qed
    from g have "\<forall>s'. insert_log C junk s addr val = Some (Inr s') \<longrightarrow>
                 get_log C s' addr (length val) = Some (Inr (Some val))"
      by (intro allI impI)
    with t show ?thesis by (intro conjI)
  qed
  have B': "\<forall>s'. insert_all C junk s ws = Some (Inr s') \<longrightarrow>
             redolog_inv C s'
             \<and> (\<forall>addr w. w \<in> {1, 2, 4, 8} \<and> unat addr mod w = 0
                   \<and> (\<forall>k<w. fold overwrite ws (log_byte C s) (addr + of_nat k) \<noteq> None) \<longrightarrow>
                   get_log C s' addr w =
                     Some (Inr (Some (map (\<lambda>k. the (fold overwrite ws (log_byte C s)
                                                      (addr + of_nat k))) [0..<w]))))"
    by (intro allI impI) (rule B)
  have D': "\<forall>addr val. scalar_ok (addr, val) \<longrightarrow>
             (\<exists>r. insert_log C junk s addr val = Some r)
             \<and> (\<forall>s'. insert_log C junk s addr val = Some (Inr s') \<longrightarrow>
                   get_log C s' addr (length val) = Some (Inr (Some val)))"
    by (intro allI impI) (rule D)
  from A B' Cc D' show ?thesis by (intro conjI)
qed

theorem insert_get_round_trip_witness:
  "redolog_inv 32 (ex_log0 ex_junk) \<and> vec_count (ex_log0 ex_junk) = 0
   \<and> insert_all 32 ex_junk (ex_log0 ex_junk) [(0x1000, [7]), (0x2004, [1, 2, 3, 4])]
        = Some (Inr (ex_log2 ex_junk))
   \<and> last_inserted [(0x1000, [7]), (0x2004, [1, 2, 3, 4])] 0x1000 = Some 7
   \<and> get_log 32 (ex_log2 ex_junk) 0x1000 1 = Some (Inr (Some [7]))
   \<and> get_log 32 (ex_log1 ex_junk) 0x1000 1 = Some (Inr (Some [7]))"
proof -
  let ?ws = "[(0x1000, [7]), (0x2004, [1, 2, 3, 4])] :: insertion list"
  let ?s0 = "ex_log0 ex_junk"
  have sc: "\<forall>wr \<in> set ?ws. scalar_ok wr" by (simp add: scalar_ok_def)
  have sc1: "scalar_ok (0x1000, [7])" by (simp add: scalar_ok_def)
  have c0: "vec_count ?s0 = 0" by (simp add: ex_log0_def)
  have ia: "insert_all 32 ex_junk ?s0 ?ws = Some (Inr (ex_log2 ex_junk))"
    by (simp add: ex_log1_insert ex_log2_insert)
  note T = insert_get_round_trip [OF ex_inv(1) ex_cs sc, of ex_junk ex_junk]
  from T [THEN conjunct2, THEN conjunct2, THEN conjunct1] c0
  have f: "fold overwrite ?ws (log_byte 32 ?s0) = last_inserted ?ws" by (rule mp)
  have li: "last_inserted ?ws 0x1000 = Some 7"
    by (simp add: last_inserted_def overwrite_def)
  have pre: "(1::nat) \<in> {1, 2, 4, 8} \<and> unat (0x1000::u64) mod 1 = 0
      \<and> (\<forall>k<1. fold overwrite ?ws (log_byte 32 ?s0) (0x1000 + of_nat k) \<noteq> None)"
    unfolding f using li by simp
  from T [THEN conjunct2, THEN conjunct1, THEN spec, THEN mp, OF ia, THEN conjunct2,
      THEN spec, THEN spec, THEN mp, OF pre]
  have g2: "get_log 32 (ex_log2 ex_junk) 0x1000 1 = Some (Inr (Some [7]))"
    unfolding f using li by simp
  from T [THEN conjunct2, THEN conjunct2, THEN conjunct2, THEN spec, THEN spec, THEN mp,
      OF sc1, THEN conjunct2, THEN spec, THEN mp, OF ex_log1_insert]
  have g1: "get_log 32 (ex_log1 ex_junk) 0x1000 1 = Some (Inr (Some [7]))" by simp
  from ex_inv(1) c0 ia li g2 g1 show ?thesis by (intro conjI)
qed

lemma inv_card:
  assumes inv: "redolog_inv C s"
  shows "card {h. h < ht_len s \<and> vVer (ht_tbl s ! h) = ht_ver s} \<le> vec_count s"
  using index_ok_card [OF inv_index(1) [OF inv]]
  by (simp add: inv_len(1) [OF inv] slot_valid_def)

text \<open>
  What claim C10 says holds in every log reached from the constructor, called with a
  positive initial capacity whose triple does not wrap, by \<^verbatim>\<open>insert\<close> and \<^verbatim>\<open>clear\<close>:
  \<^verbatim>\<open>lookup\<close> returns (an index or \<open>-1\<close>, never a fault), and \<^verbatim>\<open>reserve\<close>, called as
  \<^verbatim>\<open>insert\<close> calls it, with an aligned key, returns; the index entries of the current
  version are at most \<^verbatim>\<open>vec.count\<close>, and \<^verbatim>\<open>vec.count * SPILL_FACTOR < ht.len\<close>, so
  that some entry is not of the current version and the probing loop halts there at the
  latest; the log \<^verbatim>\<open>reserve\<close> leaves, having rebuilt the index if need be, satisfies the
  same again.
\<close>

theorem lookup_reserve_terminate:
  assumes r: "reachable C junk s" and cs: "chunksize_ok C"
  shows "(\<exists>i. lookup s key = Some (Inr i))
       \<and> (unat key mod C = 0 \<longrightarrow> (\<exists>res. reserve C junk s key = Some res))
       \<and> card {h. h < ht_len s \<and> vVer (ht_tbl s ! h) = ht_ver s} \<le> vec_count s
       \<and> vec_count s * SPILL_FACTOR < ht_len s
       \<and> (\<exists>h<ht_len s. vVer (ht_tbl s ! h) \<noteq> ht_ver s)
       \<and> (\<forall>i s'. unat key mod C = 0 \<and> reserve C junk s key = Some (Inr (i, s')) \<longrightarrow>
             card {h. h < ht_len s' \<and> vVer (ht_tbl s' ! h) = ht_ver s'} \<le> vec_count s'
             \<and> vec_count s' * SPILL_FACTOR < ht_len s'
             \<and> (\<forall>key'. \<exists>i'. lookup s' key' = Some (Inr i')))"
proof -
  note inv = reachable_inv [OF r cs]
  have A: "\<exists>i. lookup s key = Some (Inr i)" using inv_lookup [OF inv, of key] by blast
  have B: "unat key mod C = 0 \<longrightarrow> (\<exists>res. reserve C junk s key = Some res)"
    by (intro impI) (rule reserve_total [OF inv cs])
  note Cc = inv_card [OF inv]
  note D = inv_small(5) [OF inv]
  have E: "\<exists>h<ht_len s. vVer (ht_tbl s ! h) \<noteq> ht_ver s"
    using inv_free_slot [OF inv] by (simp add: slot_valid_def)
  have F: "card {h. h < ht_len s' \<and> vVer (ht_tbl s' ! h) = ht_ver s'} \<le> vec_count s'
           \<and> vec_count s' * SPILL_FACTOR < ht_len s'
           \<and> (\<forall>key'. \<exists>i'. lookup s' key' = Some (Inr i'))"
    if al: "unat key mod C = 0" and res: "reserve C junk s key = Some (Inr (i, s'))" for i s'
  proof -
    from reserve_ok [OF inv cs al, of junk] res have inv': "redolog_inv C s'"
      using inv by auto
    have "\<forall>key'. \<exists>i'. lookup s' key' = Some (Inr i')"
    proof
      fix key'
      from inv_lookup [OF inv', of key'] show "\<exists>i'. lookup s' key' = Some (Inr i')" by blast
    qed
    with inv_card [OF inv'] inv_small(5) [OF inv'] show ?thesis by (intro conjI)
  qed
  have F': "\<forall>i s'. unat key mod C = 0 \<and> reserve C junk s key = Some (Inr (i, s')) \<longrightarrow>
             card {h. h < ht_len s' \<and> vVer (ht_tbl s' ! h) = ht_ver s'} \<le> vec_count s'
             \<and> vec_count s' * SPILL_FACTOR < ht_len s'
             \<and> (\<forall>key'. \<exists>i'. lookup s' key' = Some (Inr i'))"
    by (intro allI impI, elim conjE) (rule F)
  from A B Cc D E F' show ?thesis by (intro conjI)
qed

theorem lookup_reserve_terminate_witness:
  "reachable 32 ex_junk (ex_log1 ex_junk) \<and> chunksize_ok 32
   \<and> lookup (ex_log1 ex_junk) 0x1000 = Some (Inr 0)
   \<and> lookup (ex_log1 ex_junk) 0x2000 = Some (Inr (- 1))
   \<and> reserve 32 ex_junk (ex_log1 ex_junk) 0x1000 = Some (Inr (0, ex_log1 ex_junk))
   \<and> vec_count (ex_log1 ex_junk) * SPILL_FACTOR < ht_len (ex_log1 ex_junk)
   \<and> (\<exists>res. reserve 32 ex_junk (ex_log1 ex_junk) 0x2000 = Some res)
   \<and> card {h. h < ht_len (ex_log1 ex_junk)
                \<and> vVer (ht_tbl (ex_log1 ex_junk) ! h) = ht_ver (ex_log1 ex_junk)}
         \<le> vec_count (ex_log1 ex_junk)"
proof -
  let ?s = "ex_log1 ex_junk"
  note T = lookup_reserve_terminate [OF ex_reachable(2) ex_cs, of ex_junk]
  have h: "hash ?s 0x1000 = Suc 0" "hash ?s 0x2000 = 2"
    by (simp_all add: hash_def mix13_hash_def ex_log1_def)
  have p: "probe ?s 0x1000 (Suc 0) = Some (Inr (Found 0))"
    "probe ?s 0x2000 2 = Some (Inr (Unused 2))"
    by (subst probe.simps, simp add: ex_log1_def index_t_init_def)+
  have l1: "lookup ?s 0x1000 = Some (Inr 0)"
    using T [of "0x1000", THEN conjunct1] by (simp add: lookup_def h p int_of_size_t_def)
  have l2: "lookup ?s 0x2000 = Some (Inr (- 1))"
    using T [of "0x2000", THEN conjunct1] by (simp add: lookup_def h p)
  have r1: "reserve 32 ex_junk ?s 0x1000 = Some (Inr (0, ?s))"
    by (simp add: reserve_def h p)
  have al: "unat (0x2000::u64) mod 32 = 0" by simp
  from T [of "0x2000", THEN conjunct2, THEN conjunct1] al
  have r2: "\<exists>res. reserve 32 ex_junk ?s 0x2000 = Some res" by (rule mp)
  from T [of 0, THEN conjunct2, THEN conjunct2, THEN conjunct2, THEN conjunct1]
  have c: "vec_count ?s * SPILL_FACTOR < ht_len ?s" .
  have al1: "unat (0x1000::u64) mod 32 = 0" by simp
  from T [of "0x1000", THEN conjunct2, THEN conjunct2, THEN conjunct2, THEN conjunct2,
      THEN conjunct2, THEN spec, THEN spec, THEN mp, OF conjI [OF al1 r1], THEN conjunct1]
  have k: "card {h. h < ht_len ?s \<and> vVer (ht_tbl ?s ! h) = ht_ver ?s} \<le> vec_count ?s" .
  from ex_reachable(2) ex_cs l1 l2 r1 c r2 k show ?thesis by (intro conjI)
qed


section \<open>Write-back of the redo log\<close>

lemma ex_log2_wf: "chunksize_ok 32" "chunks_wf 32 (ex_log2 ex_junk)"
  by (rule ex_cs) (rule reachable_chunks_wf [OF ex_reachable(3) ex_cs])

lemma ex_log2_stores:
  "writeback_stores 32 (ex_log2 ex_junk) = [Store 0x1000 [7], Store 0x2004 [1, 2, 3, 4]]"
  by code_simp

lemma ex_log2_chunk1:
  "vec_count (ex_log2 j) = 2" "bAddr (vec_chunks (ex_log2 j) ! Suc 0) = 0x2000"
  "vBytes (vec_chunks (ex_log2 j) ! Suc 0) = 0xF0" "data (vec_chunks (ex_log2 j) ! Suc 0) ! 5 = 2"
  "bAddr (vec_chunks (ex_log2 j) ! 0) = 0x1000" "vBytes (vec_chunks (ex_log2 j) ! 0) = 1"
  by (simp_all add: ex_log2_def nth_append)

lemma ex_bits: "bit (0xF0 :: u64) 4" "bit (0xF0 :: u64) 5" "bit (0xF0 :: u64) 6"
  "bit (0xF0 :: u64) 7" "\<not> bit (0xF0 :: u64) 3"
  by simp_all

text \<open>
  Claim C5.  For a log whose chunks in use are well formed (every state the constructor,
  \<^verbatim>\<open>insert\<close> and \<^verbatim>\<open>clear\<close> produce is), \<^verbatim>\<open>writeback\<close> leaves in memory, at every byte
  marked valid in a chunk, that chunk's payload byte, written by exactly one store, and
  leaves every other byte as it was.  Every store it performs writes 8, 4, 2 or 1 bytes
  of one chunk, all marked valid, to a naturally aligned address; it is the largest such
  block at its offset and lies in no larger aligned block that is valid throughout.
  Every valid scalar of 1, 2, 4 or 8 bytes at an aligned offset lies inside one store,
  and no other store touches any of its bytes.  No address is written twice.
\<close>

theorem writeback_effect:
  assumes ok: "chunksize_ok C" and wf: "chunks_wf C s"
  shows "(\<forall>i<vec_count s. \<forall>j<C. bit (vBytes (vec_chunks s ! i)) j \<longrightarrow>
            writeback C s mem (bAddr (vec_chunks s ! i) + of_nat j) = data (vec_chunks s ! i) ! j
            \<and> length (filter (\<lambda>st. covers st (bAddr (vec_chunks s ! i) + of_nat j))
                         (writeback_stores C s)) = 1)
       \<and> (\<forall>a. (\<forall>i<vec_count s. \<forall>j<C. bit (vBytes (vec_chunks s ! i)) j \<longrightarrow>
                   a \<noteq> bAddr (vec_chunks s ! i) + of_nat j) \<longrightarrow>
              writeback C s mem a = mem a)
       \<and> (\<forall>st \<in> set (writeback_stores C s).
            \<exists>i<vec_count s. \<exists>off n. st = chunk_store (vec_chunks s ! i) off n
              \<and> largest_at (vBytes (vec_chunks s ! i)) off n \<and> off + n \<le> C
              \<and> length (st_bytes st) = n \<and> unat (st_addr st) mod n = 0
              \<and> (\<forall>n' \<in> {2, 4, 8}. n < n' \<longrightarrow>
                    \<not> allv (vBytes (vec_chunks s ! i)) (off - off mod n') n'))
       \<and> (\<forall>i<vec_count s. \<forall>off w.
            w \<in> {1, 2, 4, 8} \<and> off mod w = 0 \<and> off + w \<le> C
            \<and> allv (vBytes (vec_chunks s ! i)) off w \<longrightarrow>
            (\<exists>off' n. chunk_store (vec_chunks s ! i) off' n \<in> set (writeback_stores C s)
               \<and> off' \<le> off \<and> off + w \<le> off' + n
               \<and> (\<forall>st \<in> set (writeback_stores C s).
                     (\<exists>k<w. covers st (bAddr (vec_chunks s ! i) + of_nat (off + k)))
                     \<longrightarrow> st = chunk_store (vec_chunks s ! i) off' n)))
       \<and> (\<forall>x. length (filter (\<lambda>st. covers st x) (writeback_stores C s)) \<le> 1)"
proof -
  let ?L = "writeback_stores C s"
  have A: "\<forall>i<vec_count s. \<forall>j<C. bit (vBytes (vec_chunks s ! i)) j \<longrightarrow>
            writeback C s mem (bAddr (vec_chunks s ! i) + of_nat j) = data (vec_chunks s ! i) ! j
            \<and> length (filter (\<lambda>st. covers st (bAddr (vec_chunks s ! i) + of_nat j)) ?L) = 1"
    by (intro allI impI conjI) (rule writeback_valid_byte [OF ok wf], assumption+)+
  have B: "\<forall>a. (\<forall>i<vec_count s. \<forall>j<C. bit (vBytes (vec_chunks s ! i)) j \<longrightarrow>
                   a \<noteq> bAddr (vec_chunks s ! i) + of_nat j) \<longrightarrow>
              writeback C s mem a = mem a"
    by (intro allI impI) (rule writeback_frame [OF ok wf])
  have Cc: "\<forall>st \<in> set ?L.
            \<exists>i<vec_count s. \<exists>off n. st = chunk_store (vec_chunks s ! i) off n
              \<and> largest_at (vBytes (vec_chunks s ! i)) off n \<and> off + n \<le> C
              \<and> length (st_bytes st) = n \<and> unat (st_addr st) mod n = 0
              \<and> (\<forall>n' \<in> {2, 4, 8}. n < n' \<longrightarrow>
                    \<not> allv (vBytes (vec_chunks s ! i)) (off - off mod n') n')"
    by (intro ballI) (rule writeback_store_maximal [OF ok wf])
  have D: "\<forall>i<vec_count s. \<forall>off w.
            w \<in> {1, 2, 4, 8} \<and> off mod w = 0 \<and> off + w \<le> C
            \<and> allv (vBytes (vec_chunks s ! i)) off w \<longrightarrow>
            (\<exists>off' n. chunk_store (vec_chunks s ! i) off' n \<in> set ?L
               \<and> off' \<le> off \<and> off + w \<le> off' + n
               \<and> (\<forall>st \<in> set ?L.
                     (\<exists>k<w. covers st (bAddr (vec_chunks s ! i) + of_nat (off + k)))
                     \<longrightarrow> st = chunk_store (vec_chunks s ! i) off' n))"
  proof (intro allI impI, elim conjE)
    fix i off w
    assume "i < vec_count s" "w \<in> {1, 2, 4, 8}" "off mod w = 0" "off + w \<le> C"
      "allv (vBytes (vec_chunks s ! i)) off w"
    then show "\<exists>off' n. chunk_store (vec_chunks s ! i) off' n \<in> set ?L
               \<and> off' \<le> off \<and> off + w \<le> off' + n
               \<and> (\<forall>st \<in> set ?L.
                     (\<exists>k<w. covers st (bAddr (vec_chunks s ! i) + of_nat (off + k)))
                     \<longrightarrow> st = chunk_store (vec_chunks s ! i) off' n)"
      by (rule writeback_scalar_single [OF ok wf])
  qed
  have E: "\<forall>x. length (filter (\<lambda>st. covers st x) ?L) \<le> 1"
    by (intro allI) (rule writeback_stores_once [OF ok wf])
  from A B Cc D E show ?thesis by (intro conjI)
qed

theorem writeback_effect_witness:
  "chunksize_ok 32 \<and> chunks_wf 32 (ex_log2 ex_junk)
   \<and> writeback 32 (ex_log2 ex_junk) (\<lambda>_. 0xAA) 0x2005 = 2
   \<and> length (filter (\<lambda>st. covers st 0x2005) (writeback_stores 32 (ex_log2 ex_junk))) = 1
   \<and> writeback 32 (ex_log2 ex_junk) (\<lambda>_. 0xAA) 0x2003 = 0xAA
   \<and> (\<exists>off' n. chunk_store (vec_chunks (ex_log2 ex_junk) ! 1) off' n
                   \<in> set (writeback_stores 32 (ex_log2 ex_junk))
         \<and> off' \<le> 4 \<and> 4 + 4 \<le> off' + n)
   \<and> length (filter (\<lambda>st. covers st 0x2004) (writeback_stores 32 (ex_log2 ex_junk))) \<le> 1
   \<and> writeback_stores 32 (ex_log2 ex_junk) = [Store 0x1000 [7], Store 0x2004 [1, 2, 3, 4]]"
proof -
  let ?s = "ex_log2 ex_junk"
  note T = writeback_effect [OF ex_log2_wf, of "\<lambda>_. 0xAA"]
  have i1: "1 < vec_count ?s" by (simp add: ex_log2_chunk1)
  have j5: "(5::nat) < 32" by simp
  have b5: "bit (vBytes (vec_chunks ?s ! 1)) 5" by (simp add: ex_log2_chunk1)
  from T [THEN conjunct1, THEN spec, THEN mp, OF i1, THEN spec, THEN mp, OF j5, THEN mp, OF b5]
  have AA: "writeback 32 ?s (\<lambda>_. 0xAA) (bAddr (vec_chunks ?s ! 1) + of_nat 5)
              = data (vec_chunks ?s ! 1) ! 5
            \<and> length (filter (\<lambda>st. covers st (bAddr (vec_chunks ?s ! 1) + of_nat 5))
                         (writeback_stores 32 ?s)) = 1" .
  from AA have A: "writeback 32 ?s (\<lambda>_. 0xAA) 0x2005 = 2"
    by (simp add: ex_log2_chunk1)
  from AA have A1: "length (filter (\<lambda>st. covers st 0x2005) (writeback_stores 32 ?s)) = 1"
    by (simp add: ex_log2_chunk1)
  have nt: "\<forall>i<vec_count ?s. \<forall>j<32. bit (vBytes (vec_chunks ?s ! i)) j \<longrightarrow>
              (0x2003 :: u64) \<noteq> bAddr (vec_chunks ?s ! i) + of_nat j"
  proof (intro allI impI notI)
    fix i j assume i: "i < vec_count ?s" and j: "j < 32"
      and b: "bit (vBytes (vec_chunks ?s ! i)) j"
      and e: "(0x2003 :: u64) = bAddr (vec_chunks ?s ! i) + of_nat j"
    have al: "unat (bAddr (vec_chunks ?s ! i)) mod 32 = 0"
      by (rule chunks_wf_nth [OF ex_log2_wf(2) i])
    have al': "unat (0x2000 :: u64) mod 32 = 0" by simp
    have "bAddr (vec_chunks ?s ! i) + of_nat j = 0x2000 + of_nat 3"
      using e by simp
    from chunk_addr_unique [OF ex_log2_wf(1) al al' j _ this]
    have "bAddr (vec_chunks ?s ! i) = 0x2000" "j = 3" by simp_all
    moreover from this(1) have "i = 1"
      using chunks_wf_distinct [OF ex_log2_wf(2) i i1] by (simp add: ex_log2_chunk1)
    ultimately show False using b ex_bits by (simp add: ex_log2_chunk1)
  qed
  from T [THEN conjunct2, THEN conjunct1, THEN spec, THEN mp, OF nt]
  have B: "writeback 32 ?s (\<lambda>_. 0xAA) 0x2003 = 0xAA" .
  have av: "allv (vBytes (vec_chunks ?s ! 1)) 4 4"
    using ex_bits by (auto simp: allv_def less_Suc_eq numeral_eq_Suc ex_log2_chunk1)
  have pre: "(4::nat) \<in> {1, 2, 4, 8} \<and> (4::nat) mod 4 = 0 \<and> (4::nat) + 4 \<le> 32
       \<and> allv (vBytes (vec_chunks ?s ! 1)) 4 4"
    using av by simp
  from T [THEN conjunct2, THEN conjunct2, THEN conjunct2, THEN conjunct1,
      THEN spec, THEN mp, OF i1, THEN spec, THEN spec, THEN mp, OF pre]
  have D: "\<exists>off' n. chunk_store (vec_chunks ?s ! 1) off' n \<in> set (writeback_stores 32 ?s)
         \<and> off' \<le> 4 \<and> 4 + 4 \<le> off' + n"
    by (elim exE conjE) (intro exI conjI)
  from T [THEN conjunct2, THEN conjunct2, THEN conjunct2, THEN conjunct2, THEN spec]
  have E: "length (filter (\<lambda>st. covers st 0x2004) (writeback_stores 32 ?s)) \<le> 1" .
  from ex_log2_wf A A1 B D E ex_log2_stores show ?thesis by (intro conjI)
qed

section \<open>Properties of the reclamation\<close>

lemma find_oldest_Min: "find_oldest oldest tss = Min (insert oldest (set tss))"
proof (induction tss arbitrary: oldest)
  case Nil
  then show ?case by simp
next
  case (Cons t rest)
  have "(if t < oldest then t else oldest) = min t oldest" by (auto simp: min_def)
  then have "find_oldest oldest (t # rest) = Min (insert (min t oldest) (set rest))"
    by (simp add: Cons.IH)
  also have "\<dots> = Min (insert oldest (set (t # rest)))"
  proof (cases "set rest = {}")
    case True
    then show ?thesis by (simp add: min.commute)
  next
    case False
    then show ?thesis by (simp add: min.assoc min.commute min.left_commute)
  qed
  finally show ?case .
qed

lemma sorted_map_const: "sorted (map (\<lambda>x. c) xs)"
  by (induction xs) auto

lemma sweep_loop_prefix:
  "sweep_loop oldest U d =
     (dropWhile (\<lambda>r. snd r < oldest) U, d @ map fst (takeWhile (\<lambda>r. snd r < oldest) U))"
  by (induction oldest U d rule: sweep_loop.induct) (auto simp: not_less)

lemma sorted_takeWhile_filter:
  "sorted (map snd U) \<Longrightarrow>
     takeWhile (\<lambda>r. snd r < (oldest::u64)) U = filter (\<lambda>r. snd r < oldest) U
     \<and> dropWhile (\<lambda>r. snd r < oldest) U = filter (\<lambda>r. snd r \<ge> oldest) U"
proof (induction U)
  case Nil
  then show ?case by simp
next
  case (Cons r U)
  show ?case
  proof (cases "snd r < oldest")
    case True
    with Cons show ?thesis by (simp add: not_le)
  next
    case False
    then have "\<forall>x \<in> set U. \<not> snd x < oldest" using Cons.prems by fastforce
    then have "filter (\<lambda>r. snd r < oldest) U = []" "filter (\<lambda>r. snd r \<ge> oldest) U = U"
      by (simp_all add: filter_empty_conv filter_id_conv not_less)
    with False show ?thesis by (auto simp add: not_less)
  qed
qed

text \<open>
  Claim C7 (as amended).  \<^verbatim>\<open>exit\<close> with nothing pending only publishes END_OF_TIME.
  Otherwise it stamps the pending objects and appends them to the FIFO, and counts the
  exit: while more than one exit remains there is no sweep; the exit that brings the
  counter to zero (every 1024th exit that hands over retired objects) resets it to 1024
  and sweeps.  With the FIFO ordered by stamp, the sweep destroys exactly the records whose
  stamp is strictly below the minimum of the timestamps published along the chain (this
  thread has just published END_OF_TIME) and retains exactly those at or above it.
\<close>

theorem smr_exit_sweep:
  assumes "sorted (map snd (unreachable s))" and "\<forall>r \<in> set (unreachable s). snd r \<le> time"
    and "U = unreachable s @ map (\<lambda>p. (p, time)) (pending s)"
    and "oldest = Min (insert ULLONG_MAX (set others))"
  shows "(pending s = [] \<longrightarrow> smr_exit s time others d = (s\<lparr>ts := ULLONG_MAX\<rparr>, d))
       \<and> (pending s \<noteq> [] \<and> exits_remaining s > 1 \<longrightarrow>
            smr_exit s time others d =
              (s\<lparr>ts := ULLONG_MAX, pending := [], unreachable := U,
                 exits_remaining := exits_remaining s - 1\<rparr>, d))
       \<and> (pending s \<noteq> [] \<and> exits_remaining s \<le> 1 \<longrightarrow>
            smr_exit s time others d =
              (s\<lparr>ts := ULLONG_MAX, pending := [],
                 unreachable := filter (\<lambda>r. snd r \<ge> oldest) U,
                 exits_remaining := SWEEP_THRESHOLD\<rparr>,
               d @ map fst (filter (\<lambda>r. snd r < oldest) U)))
       \<and> sorted (map snd U)"
proof -
  have sU: "sorted (map snd U)"
    using assms(1,2) unfolding assms(3)
    by (auto simp: sorted_append comp_def sorted_map_const)
  have o: "find_oldest ULLONG_MAX (ULLONG_MAX # others) = oldest"
    by (simp add: find_oldest_Min assms(4))
  note f = sorted_takeWhile_filter [OF sU, of oldest]
  have a: "pending s = [] \<Longrightarrow> smr_exit s time others d = (s\<lparr>ts := ULLONG_MAX\<rparr>, d)"
    by (simp add: smr_exit_def)
  have b: "pending s \<noteq> [] \<Longrightarrow> exits_remaining s > 1 \<Longrightarrow>
            smr_exit s time others d =
              (s\<lparr>ts := ULLONG_MAX, pending := [], unreachable := U,
                 exits_remaining := exits_remaining s - 1\<rparr>, d)"
    by (simp add: smr_exit_def Let_def assms(3))
  have c: "pending s \<noteq> [] \<Longrightarrow> exits_remaining s \<le> 1 \<Longrightarrow>
            smr_exit s time others d =
              (s\<lparr>ts := ULLONG_MAX, pending := [],
                 unreachable := filter (\<lambda>r. snd r \<ge> oldest) U,
                 exits_remaining := SWEEP_THRESHOLD\<rparr>,
               d @ map fst (filter (\<lambda>r. snd r < oldest) U))"
    using f o by (simp add: smr_exit_def Let_def sweep_def sweep_loop_prefix assms(3))
  from a b c sU show ?thesis by blast
qed

theorem smr_exit_sweep_witness:
  "smr_exit ex_smr 30 [15, ULLONG_MAX] []
     = (\<lparr>ts = ULLONG_MAX, pending = [], unreachable = [(2, 20), (3, 30)],
         exits_remaining = 1024\<rparr>, [1])
   \<and> smr_exit (ex_smr\<lparr>exits_remaining := 2\<rparr>) 30 [15, ULLONG_MAX] []
     = (\<lparr>ts = ULLONG_MAX, pending = [], unreachable = [(1, 10), (2, 20), (3, 30)],
         exits_remaining = 1\<rparr>, [])
   \<and> smr_exit (ex_smr\<lparr>pending := []\<rparr>) 30 [15, ULLONG_MAX] []
     = (\<lparr>ts = ULLONG_MAX, pending = [], unreachable = [(1, 10), (2, 20)],
         exits_remaining = 1\<rparr>, [])"
proof -
  have so: "sorted (map snd (unreachable ex_smr))"
    "sorted (map snd (unreachable (ex_smr\<lparr>exits_remaining := 2\<rparr>)))"
    "sorted (map snd (unreachable (ex_smr\<lparr>pending := []\<rparr>)))"
    by (simp_all add: ex_smr_def)
  have le: "\<forall>r \<in> set (unreachable ex_smr). snd r \<le> 30"
    "\<forall>r \<in> set (unreachable (ex_smr\<lparr>exits_remaining := 2\<rparr>)). snd r \<le> 30"
    "\<forall>r \<in> set (unreachable (ex_smr\<lparr>pending := []\<rparr>)). snd r \<le> 30"
    by (simp_all add: ex_smr_def)
  have mn: "Min (insert ULLONG_MAX (set [15, ULLONG_MAX])) = 15"
    by (simp add: ULLONG_MAX_def)
  have 1: "smr_exit ex_smr 30 [15, ULLONG_MAX] []
     = (\<lparr>ts = ULLONG_MAX, pending = [], unreachable = [(2, 20), (3, 30)],
         exits_remaining = 1024\<rparr>, [1])"
    using smr_exit_sweep [OF so(1) le(1) refl refl, of "[15, ULLONG_MAX]" "[]"]
    unfolding mn by (simp add: ex_smr_def SWEEP_THRESHOLD_def)
  have 2: "smr_exit (ex_smr\<lparr>exits_remaining := 2\<rparr>) 30 [15, ULLONG_MAX] []
     = (\<lparr>ts = ULLONG_MAX, pending = [], unreachable = [(1, 10), (2, 20), (3, 30)],
         exits_remaining = 1\<rparr>, [])"
    using smr_exit_sweep [OF so(2) le(2) refl refl, of "[15, ULLONG_MAX]" "[]"]
    unfolding mn by (simp add: ex_smr_def)
  have 3: "smr_exit (ex_smr\<lparr>pending := []\<rparr>) 30 [15, ULLONG_MAX] []
     = (\<lparr>ts = ULLONG_MAX, pending = [], unreachable = [(1, 10), (2, 20)],
         exits_remaining = 1\<rparr>, [])"
    using smr_exit_sweep [OF so(3) le(3) refl refl, of "[15, ULLONG_MAX]" "[]"]
    unfolding mn by (simp add: ex_smr_def)
  from 1 2 3 show ?thesis by (intro conjI)
qed

lemma fold_reclaim: "fold reclaim ps s = s\<lparr>pending := pending s @ ps\<rparr>"
  by (induction ps arbitrary: s) (simp_all add: reclaim_def)

lemma ex_retired_facts: "length ex_retired = 1024" "ex_retired \<noteq> []" "distinct ex_retired"
  by (simp_all add: ex_retired_def del: upt_rec_numeral)

text \<open>
  The sweep is not triggered by the number of retirements: after 1024 retirements handed
  over by one \<^verbatim>\<open>exit\<close> of a fresh context, nothing is destroyed, although every stamp is
  below the minimum published timestamp (no other thread is active).
\<close>

theorem sweep_every_K_retirements_counterexample:
  "length ex_retired = 1024 \<and> distinct ex_retired
   \<and> smr_exit (fold reclaim ex_retired smr_init) 5 [] []
       = (\<lparr>ts = ULLONG_MAX, pending = [], unreachable = map (\<lambda>p. (p, 5)) ex_retired,
           exits_remaining = 1023\<rparr>, [])
   \<and> (5 :: u64) < Min (insert ULLONG_MAX (set []))"
proof -
  have "smr_exit (fold reclaim ex_retired smr_init) 5 [] []
       = (\<lparr>ts = ULLONG_MAX, pending = [], unreachable = map (\<lambda>p. (p, 5)) ex_retired,
           exits_remaining = 1023\<rparr>, [])"
    using ex_retired_facts(2)
    by (simp add: fold_reclaim smr_exit_def smr_init_def SWEEP_THRESHOLD_def Let_def)
  moreover have "(5 :: u64) < Min (insert ULLONG_MAX (set []))"
    by (simp add: ULLONG_MAX_def)
  ultimately show ?thesis using ex_retired_facts by (intro conjI)
qed

section \<open>Properties of the hybrid policy\<close>

lemma validate_loop_fails:
  "p \<in> set ps \<Longrightarrow> check_orec e p m = END_OF_TIME \<Longrightarrow> \<not> validate_loop e ps m"
  by (induction ps) auto

text \<open>
  Claim C8 (as amended).  \<^verbatim>\<open>inheritOrec(obj, version)\<close> returns true exactly when the
  current value of the object's orec is at most the recorded version.  In either case it
  appends the orec to the read-set and changes nothing else, so that \<^verbatim>\<open>validate\<close> at
  commit time re-checks the orec and aborts if the check fails.  The call itself never
  aborts.
\<close>

theorem inheritOrec_spec:
  assumes "inheritOrec orec_of d obj val m = (r, d')"
  shows "(r \<longleftrightarrow> curr (orecs m (orec_of obj)) \<le> val)
       \<and> d' = d\<lparr>readset := readset d @ [orec_of obj]\<rparr>
       \<and> orec_of obj \<in> set (readset d')
       \<and> (\<forall>m'. check_orec (exo d') (orec_of obj) m' = END_OF_TIME \<longrightarrow>
              validate d' m' = (Aborts, hybrid_abort d' m'))"
proof -
  from assms have r: "r \<longleftrightarrow> curr (orecs m (orec_of obj)) \<le> val"
    and d': "d' = d\<lparr>readset := readset d @ [orec_of obj]\<rparr>"
    by (auto simp: inheritOrec_def check_continuation_def Let_def)
  from d' have mem: "orec_of obj \<in> set (readset d')" by simp
  have "validate d' m' = (Aborts, hybrid_abort d' m')"
    if "check_orec (exo d') (orec_of obj) m' = END_OF_TIME" for m'
    using validate_loop_fails [OF mem that] by (simp add: validate_def)
  with r d' mem show ?thesis by blast
qed

theorem inheritOrec_spec_witness:
  "inheritOrec id ex_hybrid 3 100 ex_machine = (True, ex_hybrid\<lparr>readset := [3]\<rparr>)
   \<and> inheritOrec id ex_hybrid 3 50 ex_machine = (False, ex_hybrid\<lparr>readset := [3]\<rparr>)
   \<and> validate (ex_hybrid\<lparr>readset := [3]\<rparr>) ex_machine
       = (Aborts, hybrid_abort (ex_hybrid\<lparr>readset := [3]\<rparr>) ex_machine)"
proof -
  obtain r1 d1 where i1: "inheritOrec id ex_hybrid 3 100 ex_machine = (r1, d1)"
    by (cases "inheritOrec id ex_hybrid 3 100 ex_machine")
  obtain r2 d2 where i2: "inheritOrec id ex_hybrid 3 50 ex_machine = (r2, d2)"
    by (cases "inheritOrec id ex_hybrid 3 50 ex_machine")
  have c: "curr (orecs ex_machine (id 3)) = 100" by (simp add: ex_machine_def)
  have rs: "readset ex_hybrid @ [id 3] = [3]" by (simp add: ex_hybrid_def)
  note T1 = inheritOrec_spec [OF i1, unfolded c rs]
  note T2 = inheritOrec_spec [OF i2, unfolded c rs]
  from T1 have g1: "r1 = True" "d1 = ex_hybrid\<lparr>readset := [3]\<rparr>" by simp_all
  from T2 have g2: "r2 = False" "d2 = ex_hybrid\<lparr>readset := [3]\<rparr>" by simp_all
  have ck: "check_orec (exo d1) (id 3) ex_machine = END_OF_TIME"
    unfolding g1 by (simp add: check_orec_def ex_machine_def ex_hybrid_def exotm_init_def
                      LOCK_BIT_def)
  from T1 [THEN conjunct2, THEN conjunct2, THEN conjunct2, THEN spec, THEN mp, OF ck]
  have v: "validate (ex_hybrid\<lparr>readset := [3]\<rparr>) ex_machine
       = (Aborts, hybrid_abort (ex_hybrid\<lparr>readset := [3]\<rparr>) ex_machine)"
    unfolding g1 .
  from i1 i2 g1 g2 v show ?thesis by simp
qed

text \<open>
  On an inconsistent orec (value 100, recorded version 50) the call returns false, but the
  transaction is not aborted: the descriptor is not the one \<^verbatim>\<open>abort\<close> leaves (nothing is
  unwound, the read-set is not cleared), and the \<^verbatim>\<open>commit\<close> the guard's destructor runs
  returns normally.
\<close>

theorem inheritOrec_no_abort_counterexample:
  "\<not> (curr (orecs ex_machine (id 3)) \<le> 50)
   \<and> inheritOrec id ex_hybrid 3 50 ex_machine = (False, ex_hybrid\<lparr>readset := [3]\<rparr>)
   \<and> ex_hybrid\<lparr>readset := [3]\<rparr> \<noteq> fst (hybrid_abort ex_hybrid ex_machine)
   \<and> \<not> unwound (exo (ex_hybrid\<lparr>readset := [3]\<rparr>))
   \<and> unwound (exo (fst (hybrid_abort ex_hybrid ex_machine)))
   \<and> fst (commit id (ex_hybrid\<lparr>readset := [3]\<rparr>) ex_machine (\<lambda>_. 0)) = Returns ()"
  by (simp add: inheritOrec_def check_continuation_def ex_machine_def ex_hybrid_def
        hybrid_abort_def unwind_def commit_def has_orecs_def exotm_init_def Let_def)

end
